theory Spec2Isabelle
  imports Complex_Main "HOL-Library.Multiset"
begin

section \<open>Tables\<close>

text \<open>
  A Python \<^verbatim>\<open>str\<close> is a sequence of Unicode code points, so it is modelled as a list of
  numbers and not as a list of bytes. Column labels stay ordinary strings: the program
  only compares them for equality.
\<close>

type_synonym pystr = "nat list"

definition pystr_of :: "string \<Rightarrow> pystr" where
  "pystr_of s = map of_char s"

text \<open>
  One cell of a table. \<open>NaN\<close> is the missing value of a text or number column, \<open>NaT\<close> the
  missing value of a date-time or time-delta column. \<open>TsV t\<close> is a time stamp and \<open>TdV d\<close>
  a time delta, both counted in nanoseconds as pandas does; the bounds of its 64-bit
  representation are not modelled, the counts are unbounded integers.
\<close>

datatype cell = NaN | NaT | StrV pystr | IntV int | BoolV bool | TsV int | TdV int

text \<open>
  The exceptions the modelled functions can raise, named after their cause:
  \<open>KeyError c\<close>: no column is labelled \<open>c\<close>;
  \<open>DuplicateColumn c\<close>: several columns are labelled \<open>c\<close>, so that \<^verbatim>\<open>df[c]\<close> is a table and
  not a column and the next operation on it raises;
  \<open>DateParseError i\<close>: \<^verbatim>\<open>pd.to_datetime\<close> could not parse the value at position \<open>i\<close>;
  \<open>NotDatetime c\<close>: column \<open>c\<close> holds something that is not a date-time;
  \<open>StrftimeNaT\<close>: \<^verbatim>\<open>strftime\<close> was called on \<open>NaT\<close>;
  \<open>ZeroDivisionError\<close>: division of a Python integer by zero.
\<close>

datatype error =
    KeyError string
  | DuplicateColumn string
  | DateParseError nat
  | NotDatetime string
  | StrftimeNaT
  | ZeroDivisionError

text \<open>
  A DataFrame: the row labels in row order and the columns in column order, each column
  with its label and its cells in row order.
\<close>

record frame =
  index :: "nat list"
  columns :: "(string \<times> cell list) list"

definition column_names :: "frame \<Rightarrow> string list" where
  "column_names df = map fst (columns df)"

definition nrows :: "frame \<Rightarrow> nat" where
  "nrows df = length (index df)"

text \<open>
  A table as \<^verbatim>\<open>pd.read_csv\<close> builds it: the labels of the columns are distinct and every
  column has one cell per row.
\<close>

definition wf_frame :: "frame \<Rightarrow> bool" where
  "wf_frame df \<longleftrightarrow>
     distinct (column_names df) \<and> list_all (\<lambda>c. length (snd c) = nrows df) (columns df)"

text \<open>\<^verbatim>\<open>df[c]\<close> read as a column.\<close>

definition getitem :: "frame \<Rightarrow> string \<Rightarrow> error + cell list" where
  "getitem df c =
     (case filter (\<lambda>p. fst p = c) (columns df) of
        [] \<Rightarrow> Inl (KeyError c)
      | [p] \<Rightarrow> Inr (snd p)
      | _ \<Rightarrow> Inl (DuplicateColumn c))"

text \<open>\<^verbatim>\<open>df[c] = vs\<close>: overwrites the column labelled \<open>c\<close>, or appends a new last column.\<close>

definition set_col :: "string \<Rightarrow> cell list \<Rightarrow> frame \<Rightarrow> frame" where
  "set_col c vs df =
     (if c \<in> set (column_names df)
      then df\<lparr>columns := map (\<lambda>p. if fst p = c then (c, vs) else p) (columns df)\<rparr>
      else df\<lparr>columns := columns df @ [(c, vs)]\<rparr>)"

text \<open>\<^verbatim>\<open>df.rename(columns={old: new})\<close>.\<close>

definition rename_col :: "string \<Rightarrow> string \<Rightarrow> frame \<Rightarrow> frame" where
  "rename_col old new df =
     df\<lparr>columns := map (\<lambda>p. (if fst p = old then new else fst p, snd p)) (columns df)\<rparr>"

text \<open>\<^verbatim>\<open>df.take(ixs)\<close>: the rows at the given positions, with their labels.\<close>

definition take_rows :: "nat list \<Rightarrow> frame \<Rightarrow> frame" where
  "take_rows ixs df =
     \<lparr>index = map (\<lambda>i. index df ! i) ixs,
      columns = map (\<lambda>p. (fst p, map (\<lambda>i. snd p ! i) ixs)) (columns df)\<rparr>"

text \<open>The values of a date-time column: \<open>None\<close> is \<open>NaT\<close>.\<close>

definition as_datetime :: "cell \<Rightarrow> int option option" where
  "as_datetime c = (case c of TsV t \<Rightarrow> Some (Some t) | NaT \<Rightarrow> Some None | _ \<Rightarrow> None)"

definition datetime_values :: "string \<Rightarrow> cell list \<Rightarrow> error + int option list" where
  "datetime_values c cs =
     (case those (map as_datetime cs) of None \<Rightarrow> Inl (NotDatetime c) | Some ds \<Rightarrow> Inr ds)"

definition ts_cell :: "int option \<Rightarrow> cell" where
  "ts_cell d = (case d of None \<Rightarrow> NaT | Some t \<Rightarrow> TsV t)"

definition td_cell :: "int option \<Rightarrow> cell" where
  "td_cell d = (case d of None \<Rightarrow> NaT | Some t \<Rightarrow> TdV t)"

definition isna :: "cell \<Rightarrow> bool" where
  "isna c \<longleftrightarrow> c = NaN \<or> c = NaT"

section \<open>Sorting by date\<close>

text \<open>
  \<^verbatim>\<open>df.sort_values('date')\<close> sorts with the default kind, \<^verbatim>\<open>quicksort\<close>, which pandas
  documents as not stable. pandas sets the missing keys aside, sorts the others with
  numpy's \<^verbatim>\<open>argsort\<close> and appends the positions of the missing keys in their input order.
  numpy's routine is not part of the program: it is the parameter \<open>argsort\<close>, and
  \<open>valid_argsort\<close> is what its documentation promises, a permutation of the positions
  that puts the keys in ascending order.
\<close>

definition valid_argsort :: "(int list \<Rightarrow> nat list) \<Rightarrow> bool" where
  "valid_argsort argsort \<longleftrightarrow>
     (\<forall>xs. mset (argsort xs) = mset [0..<length xs] \<and> sorted (map (\<lambda>j. xs ! j) (argsort xs)))"

definition nargsort :: "(int list \<Rightarrow> nat list) \<Rightarrow> int option list \<Rightarrow> nat list" where
  "nargsort argsort items =
     (let idx = [0..<length items];
          non_nan_idx = filter (\<lambda>i. items ! i \<noteq> None) idx;
          nan_idx = filter (\<lambda>i. items ! i = None) idx;
          non_nans = map (\<lambda>i. the (items ! i)) non_nan_idx
      in map (\<lambda>j. non_nan_idx ! j) (argsort non_nans) @ nan_idx)"

definition sort_values :: "(int list \<Rightarrow> nat list) \<Rightarrow> string \<Rightarrow> frame \<Rightarrow> error + frame" where
  "sort_values argsort by df =
     (case getitem df by of
        Inl e \<Rightarrow> Inl e
      | Inr k \<Rightarrow>
          (case datetime_values by k of
             Inl e \<Rightarrow> Inl e
           | Inr items \<Rightarrow> Inr (take_rows (nargsort argsort items) df)))"

text \<open>
  A sorting routine to run the definitions with: the positions sorted by key with the
  library's insertion sort.
\<close>

definition insertion_argsort :: "int list \<Rightarrow> nat list" where
  "insertion_argsort xs = sort_key (\<lambda>j. xs ! j) [0..<length xs]"

section \<open>Binge sessions\<close>

text \<open>\<^verbatim>\<open>pd.Timedelta(hours=6)\<close>, in nanoseconds.\<close>

definition binge_threshold :: int where
  "binge_threshold = 6 * 3600 * 1000000000"

text \<open>The difference of two time stamps is \<open>NaT\<close> when one of them is.\<close>

definition td_sub :: "int option \<Rightarrow> int option \<Rightarrow> int option" where
  "td_sub a b = (case (a, b) of (Some x, Some y) \<Rightarrow> Some (x - y) | _ \<Rightarrow> None)"

text \<open>\<^verbatim>\<open>Series.diff()\<close>: \<open>NaT\<close> for the first row, then each row minus the row before.\<close>

fun diff_from :: "int option \<Rightarrow> int option list \<Rightarrow> int option list" where
  "diff_from p [] = []"
| "diff_from p (d # ds) = td_sub d p # diff_from d ds"

definition diff :: "int option list \<Rightarrow> int option list" where
  "diff ds = (case ds of [] \<Rightarrow> [] | d # ds' \<Rightarrow> None # diff_from d ds')"

text \<open>\<^verbatim>\<open>time_diff > binge_threshold\<close>: a comparison with \<open>NaT\<close> is false.\<close>

definition gt_threshold :: "int option \<Rightarrow> bool" where
  "gt_threshold d = (case d of None \<Rightarrow> False | Some x \<Rightarrow> binge_threshold < x)"

text \<open>\<^verbatim>\<open>Series.cumsum()\<close> of a Boolean column: the running count of the true cells.\<close>

fun cumsum_from :: "nat \<Rightarrow> bool list \<Rightarrow> nat list" where
  "cumsum_from acc [] = []"
| "cumsum_from acc (b # bs) =
     (if b then Suc acc # cumsum_from (Suc acc) bs else acc # cumsum_from acc bs)"

definition cumsum :: "bool list \<Rightarrow> nat list" where
  "cumsum bs = cumsum_from 0 bs"

text \<open>
  The state of \<^verbatim>\<open>binge_analysis\<close> after its first part: the sorted copy with the three
  columns it gained, and the values of the two columns the second part groups by and
  aggregates, as they were just assigned.
\<close>

record segmented =
  df_sorted :: frame
  date_values :: "int option list"
  session_ids :: "nat list"

definition segment :: "(int list \<Rightarrow> nat list) \<Rightarrow> frame \<Rightarrow> error + segmented" where
  "segment argsort df =
     (case sort_values argsort ''date'' df of
        Inl e \<Rightarrow> Inl e
      | Inr s \<Rightarrow>
          (case getitem s ''date'' of
             Inl e \<Rightarrow> Inl e
           | Inr dcol \<Rightarrow>
               (case datetime_values ''date'' dcol of
                  Inl e \<Rightarrow> Inl e
                | Inr dates \<Rightarrow>
                    (let time_diff = diff dates;
                         new_session = map gt_threshold time_diff;
                         session_id = cumsum new_session;
                         s1 = set_col ''time_diff'' (map td_cell time_diff) s;
                         s2 = set_col ''new_session'' (map BoolV new_session) s1;
                         s3 = set_col ''session_id'' (map (\<lambda>n. IntV (int n)) session_id) s2
                     in Inr \<lparr>df_sorted = s3, date_values = dates, session_ids = session_id\<rparr>))))"

text \<open>
  One row of the session table. \<open>duration_hours\<close> is the exact quotient; the rounding of
  the floating-point division is not modelled.
\<close>

record session =
  session_id :: nat
  views_count :: nat
  session_start :: "int option"
  session_end :: "int option"
  duration_hours :: "rat option"

text \<open>\<^verbatim>\<open>min\<close> and \<^verbatim>\<open>max\<close> of a date-time column skip \<open>NaT\<close> and give \<open>NaT\<close> when nothing is left.\<close>

definition present :: "int option list \<Rightarrow> int list" where
  "present ds = map the (filter (\<lambda>d. d \<noteq> None) ds)"

definition series_min :: "int option list \<Rightarrow> int option" where
  "series_min ds = (case present ds of [] \<Rightarrow> None | t # ts \<Rightarrow> Some (fold min ts t))"

definition series_max :: "int option list \<Rightarrow> int option" where
  "series_max ds = (case present ds of [] \<Rightarrow> None | t # ts \<Rightarrow> Some (fold max ts t))"

definition hours_between :: "int option \<Rightarrow> int option \<Rightarrow> rat option" where
  "hours_between e s =
     (case td_sub e s of
        None \<Rightarrow> None
      | Some d \<Rightarrow> Some (of_int d / 1000000000 / 3600))"

text \<open>
  \<^verbatim>\<open>groupby('session_id').agg({'title': 'count', 'date': ['min', 'max']})\<close> and the
  duration column: one row per distinct key in ascending order; \<^verbatim>\<open>count\<close> counts the
  cells that are not missing.
\<close>

definition group_rows :: "nat list \<Rightarrow> 'a list \<Rightarrow> nat \<Rightarrow> 'a list" where
  "group_rows keys xs g = map snd (filter (\<lambda>p. fst p = g) (zip keys xs))"

definition agg_session :: "nat list \<Rightarrow> cell list \<Rightarrow> int option list \<Rightarrow> nat \<Rightarrow> session" where
  "agg_session keys titles dates g =
     (let first_view = series_min (group_rows keys dates g);
          last_view = series_max (group_rows keys dates g)
      in \<lparr>session_id = g,
          views_count = length (filter (\<lambda>t. \<not> isna t) (group_rows keys titles g)),
          session_start = first_view,
          session_end = last_view,
          duration_hours = hours_between last_view first_view\<rparr>)"

definition session_stats :: "segmented \<Rightarrow> error + session list" where
  "session_stats seg =
     (case getitem (df_sorted seg) ''title'' of
        Inl e \<Rightarrow> Inl e
      | Inr titles \<Rightarrow>
          Inr (map (agg_session (session_ids seg) titles (date_values seg))
                 (sort (remdups (session_ids seg)))))"

text \<open>The table \<^verbatim>\<open>session_stats\<close> of \<^verbatim>\<open>binge_analysis\<close>, before the filter.\<close>

definition session_table :: "(int list \<Rightarrow> nat list) \<Rightarrow> frame \<Rightarrow> error + session list" where
  "session_table argsort df =
     (case segment argsort df of Inl e \<Rightarrow> Inl e | Inr seg \<Rightarrow> session_stats seg)"

text \<open>
  \<^verbatim>\<open>binge_analysis\<close> returns \<^verbatim>\<open>binge_sessions\<close>, the rows of the table with more than one
  view. The printed summary is not modelled.
\<close>

definition binge_analysis :: "(int list \<Rightarrow> nat list) \<Rightarrow> frame \<Rightarrow> error + session list" where
  "binge_analysis argsort df =
     (case session_table argsort df of
        Inl e \<Rightarrow> Inl e
      | Inr stats \<Rightarrow> Inr (filter (\<lambda>s. 1 < views_count s) stats))"

section \<open>Cleaning\<close>

text \<open>
  What \<^verbatim>\<open>clean_data\<close> takes from pandas and is not in the program: the parser behind
  \<^verbatim>\<open>pd.to_datetime\<close> and the calendar accessors of \<^verbatim>\<open>.dt\<close>. \<open>parse_date col c\<close> is the
  result for the cell \<open>c\<close> of the column \<open>col\<close> (pandas may infer the format from the
  column): \<open>None\<close> when the value cannot be parsed, \<open>Some None\<close> for \<open>NaT\<close>, which is what
  a missing value parses to, and \<open>Some (Some t)\<close> for a time stamp.
\<close>

record dtlib =
  parse_date :: "cell list \<Rightarrow> cell \<Rightarrow> int option option"
  dt_year :: "int \<Rightarrow> int"
  dt_month :: "int \<Rightarrow> int"
  dt_day_name :: "int \<Rightarrow> pystr"
  dt_hour :: "int \<Rightarrow> int"

text \<open>
  \<^verbatim>\<open>pd.to_datetime(col)\<close> with the default \<^verbatim>\<open>errors='raise'\<close>: the cells are parsed in row
  order and the first one that cannot be parsed raises.
\<close>

fun to_datetime_from :: "dtlib \<Rightarrow> cell list \<Rightarrow> nat \<Rightarrow> cell list \<Rightarrow> error + int option list" where
  "to_datetime_from lib col i [] = Inr []"
| "to_datetime_from lib col i (c # cs) =
     (case parse_date lib col c of
        None \<Rightarrow> Inl (DateParseError i)
      | Some d \<Rightarrow>
          (case to_datetime_from lib col (Suc i) cs of
             Inl e \<Rightarrow> Inl e
           | Inr ds \<Rightarrow> Inr (d # ds)))"

definition to_datetime :: "dtlib \<Rightarrow> cell list \<Rightarrow> error + int option list" where
  "to_datetime lib col = to_datetime_from lib col 0 col"

text \<open>A field of \<^verbatim>\<open>.dt\<close>: missing where the date is.\<close>

definition dt_field :: "(int \<Rightarrow> cell) \<Rightarrow> int option list \<Rightarrow> cell list" where
  "dt_field f ds = map (\<lambda>d. case d of None \<Rightarrow> NaN | Some t \<Rightarrow> f t) ds"

text \<open>
  The pattern \<^verbatim>\<open>\(\d{4}\)\<close>. On a Python \<^verbatim>\<open>str\<close> the class \<^verbatim>\<open>\d\<close> is every character of the
  Unicode category Nd, the decimal digits of all scripts. The category is made of runs of
  ten consecutive code points, the digits zero to nine of one script;
  \<open>decimal_digit_blocks\<close> lists the first code point of each run, as of Unicode 15.
\<close>

definition decimal_digit_blocks :: "nat list" where
  "decimal_digit_blocks =
     [0x30, 0x660, 0x6F0, 0x7C0, 0x966, 0x9E6, 0xA66, 0xAE6, 0xB66, 0xBE6, 0xC66, 0xCE6,
      0xD66, 0xDE6, 0xE50, 0xED0, 0xF20, 0x1040, 0x1090, 0x17E0, 0x1810, 0x1946, 0x19D0,
      0x1A80, 0x1A90, 0x1B50, 0x1BB0, 0x1C40, 0x1C50, 0xA620, 0xA8D0, 0xA900, 0xA9D0,
      0xA9F0, 0xAA50, 0xABF0, 0xFF10, 0x104A0, 0x10D30, 0x11066, 0x110F0, 0x11136,
      0x111D0, 0x112F0, 0x11450, 0x114D0, 0x11650, 0x116C0, 0x11730, 0x118E0, 0x11950,
      0x11C50, 0x11D50, 0x11DA0, 0x11F50, 0x16A60, 0x16AC0, 0x16B50, 0x1D7CE, 0x1D7D8,
      0x1D7E2, 0x1D7EC, 0x1D7F6, 0x1E140, 0x1E2F0, 0x1E4F0, 0x1E950, 0x1FBF0]"

definition re_digit :: "nat \<Rightarrow> bool" where
  "re_digit c \<longleftrightarrow> list_ex (\<lambda>b. b \<le> c \<and> c < b + 10) decimal_digit_blocks"

text \<open>
  The pattern matched at the head of a string: \<open>40\<close> and \<open>41\<close> are the two parentheses.
  \<^verbatim>\<open>re.search\<close> tries every position.
\<close>

fun match_year_at :: "pystr \<Rightarrow> bool" where
  "match_year_at (a # b # c # d # e # f # rest) \<longleftrightarrow>
     a = 40 \<and> re_digit b \<and> re_digit c \<and> re_digit d \<and> re_digit e \<and> f = 41"
| "match_year_at _ \<longleftrightarrow> False"

fun re_search_year :: "pystr \<Rightarrow> bool" where
  "re_search_year [] \<longleftrightarrow> False"
| "re_search_year (x # xs) \<longleftrightarrow> match_year_at (x # xs) \<or> re_search_year xs"

text \<open>
  \<^verbatim>\<open>.str.contains(r'\(\d{4}\)', na=False)\<close> on one cell: a cell that is not a string gives
  a missing result, which \<^verbatim>\<open>na=False\<close> turns into false.
\<close>

definition str_contains_year :: "cell \<Rightarrow> bool" where
  "str_contains_year c = (case c of StrV s \<Rightarrow> re_search_year s | _ \<Rightarrow> False)"

text \<open>The dictionary \<^verbatim>\<open>column_mapping\<close>, in the order of its keys.\<close>

definition column_mapping :: "(string \<times> string) list" where
  "column_mapping =
     [(''Title'', ''title''), (''Date'', ''date''), (''Profile Name'', ''profile_name''),
      (''title'', ''title''), (''date'', ''date'')]"

definition rename_columns :: "frame \<Rightarrow> frame" where
  "rename_columns df =
     fold (\<lambda>m d. if fst m \<in> set (column_names d) then rename_col (fst m) (snd m) d else d)
       column_mapping df"

text \<open>
  \<^verbatim>\<open>clean_data\<close>, as a function from the table it is given to the table it returns. The
  calendar fields are computed from the dates that were just assigned to the column
  \<^verbatim>\<open>date\<close>, and the second flag from the first. The \<^verbatim>\<open>.str\<close> accessor also raises for a
  title column that holds no text at all (a numeric column); that case is not modelled,
  so the function may return here where the program raises, never the other way round.
\<close>

definition clean_data :: "dtlib \<Rightarrow> frame \<Rightarrow> error + frame" where
  "clean_data lib df =
     (let clean_df = rename_columns df
      in case getitem clean_df ''date'' of
           Inl e \<Rightarrow> Inl e
         | Inr dcol \<Rightarrow>
             (case to_datetime lib dcol of
                Inl e \<Rightarrow> Inl e
              | Inr dates \<Rightarrow>
                  (let c1 = set_col ''date'' (map ts_cell dates) clean_df;
                       c2 = set_col ''year'' (dt_field (\<lambda>t. IntV (dt_year lib t)) dates) c1;
                       c3 = set_col ''month'' (dt_field (\<lambda>t. IntV (dt_month lib t)) dates) c2;
                       c4 = set_col ''day_of_week'' (dt_field (\<lambda>t. StrV (dt_day_name lib t)) dates) c3;
                       c5 = set_col ''hour'' (dt_field (\<lambda>t. IntV (dt_hour lib t)) dates) c4
                   in case getitem c5 ''title'' of
                        Inl e \<Rightarrow> Inl e
                      | Inr tcol \<Rightarrow>
                          (let is_movie = map str_contains_year tcol;
                               c6 = set_col ''is_movie'' (map BoolV is_movie) c5;
                               c7 = set_col ''is_tv_show'' (map (\<lambda>b. BoolV (\<not> b)) is_movie) c6
                           in Inr c7))))"

section \<open>Basic statistics\<close>

text \<open>
  The numbers \<^verbatim>\<open>show_basic_stats\<close> prints. The dates of the range are kept as time stamps
  and the quotients are exact. \<^verbatim>\<open>min\<close> and \<^verbatim>\<open>max\<close> of a column without a date are \<open>NaT\<close>,
  and \<^verbatim>\<open>NaT.strftime\<close> raises. \<^verbatim>\<open>.dt.date\<close> is the calendar day of a time stamp without
  time zone; \<^verbatim>\<open>nunique\<close> does not count the missing ones.
\<close>

record basic_stats =
  total_views :: nat
  first_date :: int
  last_date :: int
  active_days :: nat
  views_per_day :: rat
  movies :: nat
  tv_shows :: nat

definition ns_per_day :: int where
  "ns_per_day = 86400 * 1000000000"

definition count_true :: "cell list \<Rightarrow> nat" where
  "count_true cs = length (filter (\<lambda>c. c = BoolV True) cs)"

definition show_basic_stats :: "frame \<Rightarrow> error + basic_stats" where
  "show_basic_stats df =
     (let total_views = nrows df
      in case getitem df ''date'' of
           Inl e \<Rightarrow> Inl e
         | Inr dcol \<Rightarrow>
             (case datetime_values ''date'' dcol of
                Inl e \<Rightarrow> Inl e
              | Inr dates \<Rightarrow>
                  (case (series_min dates, series_max dates) of
                     (Some lo, Some hi) \<Rightarrow>
                       (let active_days = length (remdups (map (\<lambda>t. t div ns_per_day) (present dates)))
                        in if active_days = 0 then Inl ZeroDivisionError
                           else
                             (case getitem df ''is_movie'' of
                                Inl e \<Rightarrow> Inl e
                              | Inr mcol \<Rightarrow>
                                  (case getitem df ''is_tv_show'' of
                                     Inl e \<Rightarrow> Inl e
                                   | Inr tvcol \<Rightarrow>
                                       Inr \<lparr>total_views = total_views,
                                            first_date = lo,
                                            last_date = hi,
                                            active_days = active_days,
                                            views_per_day = of_nat total_views / of_nat active_days,
                                            movies = count_true mcol,
                                            tv_shows = count_true tvcol\<rparr>)))
                   | _ \<Rightarrow> Inl StrftimeNaT)))"

section \<open>The run\<close>

text \<open>
  \<^verbatim>\<open>main\<close>, from the table \<^verbatim>\<open>load_data\<close> found, or \<open>None\<close> when it found no file. Nothing
  catches an exception, so the first one ends the run. \<open>charts\<close> stands for
  \<^verbatim>\<open>find_top_titles\<close>, \<^verbatim>\<open>create_visualizations\<close> and \<^verbatim>\<open>viewing_timeline\<close>, which run between
  the statistics and the binge analysis and are not modelled.
\<close>

definition main :: "dtlib \<Rightarrow> (int list \<Rightarrow> nat list) \<Rightarrow> (frame \<Rightarrow> error + unit) \<Rightarrow> frame option \<Rightarrow> error + unit" where
  "main lib argsort charts loaded =
     (case loaded of
        None \<Rightarrow> Inr ()
      | Some df \<Rightarrow>
          (case clean_data lib df of
             Inl e \<Rightarrow> Inl e
           | Inr cleaned_df \<Rightarrow>
               (case show_basic_stats cleaned_df of
                  Inl e \<Rightarrow> Inl e
                | Inr stats \<Rightarrow>
                    (case charts cleaned_df of
                       Inl e \<Rightarrow> Inl e
                     | Inr u \<Rightarrow>
                         (case binge_analysis argsort cleaned_df of
                            Inl e \<Rightarrow> Inl e
                          | Inr binge_sessions \<Rightarrow> Inr ())))))"

section \<open>Tables as objects\<close>

text \<open>
  To say which table an operation changes, the tables live in a store: a list of tables,
  a table being known by its position. \<^verbatim>\<open>df.copy()\<close> and \<^verbatim>\<open>df.sort_values(...)\<close> make a new
  table at the end of the store; \<^verbatim>\<open>df.rename(..., inplace=True)\<close> and \<^verbatim>\<open>df[c] = vs\<close> change
  the table at the position of \<^verbatim>\<open>df\<close>.
\<close>

type_synonym store = "frame list"

definition df_copy :: "store \<Rightarrow> nat \<Rightarrow> store \<times> nat" where
  "df_copy st df = (st @ [st ! df], length st)"

definition assign_at :: "nat \<Rightarrow> (frame \<Rightarrow> frame) \<Rightarrow> store \<Rightarrow> store" where
  "assign_at df f st = st[df := f (st ! df)]"

text \<open>
  \<^verbatim>\<open>clean_data\<close> and \<^verbatim>\<open>binge_analysis\<close> once more, statement by statement on the store. They
  return the store they leave behind and, when they do not raise, the position of the
  table \<^verbatim>\<open>clean_df\<close>, respectively the session table (which is a new table of its own and
  is returned as a value).
\<close>

definition clean_data_st :: "dtlib \<Rightarrow> store \<Rightarrow> nat \<Rightarrow> store \<times> (error + nat)" where
  "clean_data_st lib st df =
     (let (st1, clean_df) = df_copy st df;
          st2 = fold (\<lambda>m s. if fst m \<in> set (column_names (s ! clean_df))
                            then assign_at clean_df (rename_col (fst m) (snd m)) s else s)
                  column_mapping st1
      in case getitem (st2 ! clean_df) ''date'' of
           Inl e \<Rightarrow> (st2, Inl e)
         | Inr dcol \<Rightarrow>
             (case to_datetime lib dcol of
                Inl e \<Rightarrow> (st2, Inl e)
              | Inr dates \<Rightarrow>
                  (let st3 = assign_at clean_df (set_col ''date'' (map ts_cell dates)) st2;
                       st4 = assign_at clean_df
                               (set_col ''year'' (dt_field (\<lambda>t. IntV (dt_year lib t)) dates)) st3;
                       st5 = assign_at clean_df
                               (set_col ''month'' (dt_field (\<lambda>t. IntV (dt_month lib t)) dates)) st4;
                       st6 = assign_at clean_df
                               (set_col ''day_of_week'' (dt_field (\<lambda>t. StrV (dt_day_name lib t)) dates)) st5;
                       st7 = assign_at clean_df
                               (set_col ''hour'' (dt_field (\<lambda>t. IntV (dt_hour lib t)) dates)) st6
                   in case getitem (st7 ! clean_df) ''title'' of
                        Inl e \<Rightarrow> (st7, Inl e)
                      | Inr tcol \<Rightarrow>
                          (let is_movie = map str_contains_year tcol;
                               st8 = assign_at clean_df (set_col ''is_movie'' (map BoolV is_movie)) st7;
                               st9 = assign_at clean_df
                                       (set_col ''is_tv_show'' (map (\<lambda>b. BoolV (\<not> b)) is_movie)) st8
                           in (st9, Inr clean_df)))))"

definition binge_analysis_st ::
    "(int list \<Rightarrow> nat list) \<Rightarrow> store \<Rightarrow> nat \<Rightarrow> store \<times> (error + session list)" where
  "binge_analysis_st argsort st df =
     (case sort_values argsort ''date'' (st ! df) of
        Inl e \<Rightarrow> (st, Inl e)
      | Inr sorted_rows \<Rightarrow>
          (let st1 = st @ [sorted_rows];
               (st2, df_sorted) = df_copy st1 (length st)
           in case getitem (st2 ! df_sorted) ''date'' of
                Inl e \<Rightarrow> (st2, Inl e)
              | Inr dcol \<Rightarrow>
                  (case datetime_values ''date'' dcol of
                     Inl e \<Rightarrow> (st2, Inl e)
                   | Inr dates \<Rightarrow>
                       (let time_diff = diff dates;
                            new_session = map gt_threshold time_diff;
                            session_id = cumsum new_session;
                            st3 = assign_at df_sorted (set_col ''time_diff'' (map td_cell time_diff)) st2;
                            st4 = assign_at df_sorted (set_col ''new_session'' (map BoolV new_session)) st3;
                            st5 = assign_at df_sorted
                                    (set_col ''session_id'' (map (\<lambda>n. IntV (int n)) session_id)) st4
                        in case session_stats \<lparr>df_sorted = st5 ! df_sorted, date_values = dates,
                                                session_ids = session_id\<rparr> of
                             Inl e \<Rightarrow> (st5, Inl e)
                           | Inr stats \<Rightarrow> (st5, Inr (filter (\<lambda>s. 1 < views_count s) stats))))))"

section \<open>Notions used to state the properties\<close>

text \<open>The session identifiers \<^verbatim>\<open>binge_analysis\<close> assigns to a column of sorted dates.\<close>

definition assign_sessions :: "int option list \<Rightarrow> nat list" where
  "assign_sessions ds = cumsum (map gt_threshold (diff ds))"

definition n_sessions :: "int option list \<Rightarrow> nat" where
  "n_sessions ds = (if ds = [] then 0 else Suc (length (filter gt_threshold (diff ds))))"

text \<open>The dates in ascending order, the missing ones last.\<close>

definition sorted_dates :: "int option list \<Rightarrow> int option list" where
  "sorted_dates items =
     map Some (sort (present items)) @ replicate (length (filter (\<lambda>d. d = None) items)) None"

definition date_le :: "int option \<Rightarrow> int option \<Rightarrow> bool" where
  "date_le a b =
     (case b of None \<Rightarrow> True | Some y \<Rightarrow> (case a of None \<Rightarrow> False | Some x \<Rightarrow> x \<le> y))"

text \<open>The three columns \<^verbatim>\<open>binge_analysis\<close> adds to its sorted copy.\<close>

definition annotate :: "int option list \<Rightarrow> frame \<Rightarrow> frame" where
  "annotate dates s =
     set_col ''session_id'' (map (\<lambda>n. IntV (int n)) (assign_sessions dates))
       (set_col ''new_session'' (map BoolV (map gt_threshold (diff dates)))
          (set_col ''time_diff'' (map td_cell (diff dates)) s))"

text \<open>How many columns carry the label \<open>c\<close>.\<close>

definition label_count :: "string \<Rightarrow> frame \<Rightarrow> nat" where
  "label_count c df = length (filter (\<lambda>p. fst p = c) (columns df))"

text \<open>The columns \<^verbatim>\<open>clean_data\<close> assigns, in its order, to the renamed copy.\<close>

definition with_derived :: "dtlib \<Rightarrow> int option list \<Rightarrow> cell list \<Rightarrow> frame \<Rightarrow> frame" where
  "with_derived lib dates tcol clean_df =
     set_col ''is_tv_show'' (map (\<lambda>b. BoolV (\<not> b)) (map str_contains_year tcol))
      (set_col ''is_movie'' (map BoolV (map str_contains_year tcol))
        (set_col ''hour'' (dt_field (\<lambda>t. IntV (dt_hour lib t)) dates)
          (set_col ''day_of_week'' (dt_field (\<lambda>t. StrV (dt_day_name lib t)) dates)
            (set_col ''month'' (dt_field (\<lambda>t. IntV (dt_month lib t)) dates)
              (set_col ''year'' (dt_field (\<lambda>t. IntV (dt_year lib t)) dates)
                (set_col ''date'' (map ts_cell dates) clean_df))))))"

definition derived_labels :: "string set" where
  "derived_labels =
     {''date'', ''year'', ''month'', ''day_of_week'', ''hour'', ''is_movie'', ''is_tv_show''}"

section \<open>Sample tables\<close>

text \<open>
  Midnight of 2024-01-01 as a time stamp, one hour as a time delta, and normalized tables
  to run the definitions on. \<open>example_history\<close> holds, out of order, the three records
  of 2024-01-01 10:00, 2024-01-01 12:00 and 2024-01-02 20:00.
\<close>

definition t0 :: int where
  "t0 = 1704067200 * 1000000000"

definition hour_ns :: int where
  "hour_ns = 3600 * 1000000000"

definition history :: "(pystr \<times> int) list \<Rightarrow> frame" where
  "history rs =
     \<lparr>index = [0..<length rs],
      columns = [(''title'', map (\<lambda>r. StrV (fst r)) rs), (''date'', map (\<lambda>r. TsV (snd r)) rs)]\<rparr>"

definition example_history :: frame where
  "example_history =
     history [(pystr_of ''Dark: S1E3'', t0 + 44 * hour_ns),
              (pystr_of ''Dark: S1E1'', t0 + 10 * hour_ns),
              (pystr_of ''Dark: S1E2'', t0 + 12 * hour_ns)]"

definition single_view :: frame where
  "single_view = history [(pystr_of ''Inception (2010)'', t0)]"

text \<open>Two records, the second one \<open>gap\<close> nanoseconds after the first.\<close>

definition two_views :: "int \<Rightarrow> frame" where
  "two_views gap =
     history [(pystr_of ''Dark: S1E1'', t0), (pystr_of ''Dark: S1E2'', t0 + gap)]"

text \<open>
  A second sorting routine, which puts equal keys in the reverse of their input order,
  and a table with two records of the same date to tell the two routines apart.
\<close>

definition descending_ties_argsort :: "int list \<Rightarrow> nat list" where
  "descending_ties_argsort xs = rev (sort_key (\<lambda>j. - (xs ! j)) [0..<length xs])"

definition tied_history :: frame where
  "tied_history =
     history [(pystr_of ''Dark: S1E1'', t0), (pystr_of ''Dark: S1E2'', t0),
              (pystr_of ''Dark: S1E3'', t0 + 7 * hour_ns)]"

text \<open>
  A stand-in for the pandas side of \<^verbatim>\<open>clean_data\<close>. Its parser takes a number as a count
  of nanoseconds since 1970, as \<^verbatim>\<open>pd.to_datetime\<close> does, takes a missing value to \<open>NaT\<close>,
  keeps a time stamp, and parses no text at all. Its accessors are the calendar fields of
  a time stamp without time zone.
\<close>

definition civil_year_month :: "int \<Rightarrow> int \<times> int" where
  "civil_year_month t =
     (let z = t div ns_per_day + 719468;
          era = z div 146097;
          doe = z mod 146097;
          yoe = (doe - doe div 1460 + doe div 36524 - doe div 146096) div 365;
          doy = doe - (365 * yoe + yoe div 4 - yoe div 100);
          mp = (5 * doy + 2) div 153;
          m = (if mp < 10 then mp + 3 else mp - 9)
      in (yoe + era * 400 + (if m \<le> 2 then 1 else 0), m))"

definition day_names :: "string list" where
  "day_names =
     [''Monday'', ''Tuesday'', ''Wednesday'', ''Thursday'', ''Friday'', ''Saturday'', ''Sunday'']"

definition sample_lib :: dtlib where
  "sample_lib =
     \<lparr>parse_date = (\<lambda>col c. case c of
                        IntV n \<Rightarrow> Some (Some n)
                      | TsV t \<Rightarrow> Some (Some t)
                      | NaN \<Rightarrow> Some None
                      | NaT \<Rightarrow> Some None
                      | _ \<Rightarrow> None),
      dt_year = (\<lambda>t. fst (civil_year_month t)),
      dt_month = (\<lambda>t. snd (civil_year_month t)),
      dt_day_name = (\<lambda>t. pystr_of (day_names ! nat ((t div ns_per_day + 3) mod 7))),
      dt_hour = (\<lambda>t. (t mod ns_per_day) div hour_ns)\<rparr>"

text \<open>
  Tables as \<^verbatim>\<open>load_data\<close> returns them: an export of two rows, an export with the header
  only, an export whose second date is not a date, an export whose second date is blank
  (\<^verbatim>\<open>pd.read_csv\<close> reads an empty field as the missing value), and an export whose title
  carries a year written in Arabic-Indic digits (the code points \<open>0x660\<close> to \<open>0x669\<close>).
\<close>

definition export :: "(cell \<times> cell) list \<Rightarrow> frame" where
  "export rs =
     \<lparr>index = [0..<length rs],
      columns = [(''Title'', map fst rs), (''Date'', map snd rs)]\<rparr>"

definition example_export :: frame where
  "example_export =
     export [(StrV (pystr_of ''Stranger Things: S1E1''), IntV (t0 + 20 * hour_ns)),
             (StrV (pystr_of ''Inception (2010)''), IntV (t0 + 10 * hour_ns))]"

definition empty_export :: frame where
  "empty_export = export []"



definition arabic_year_title :: pystr where
  "arabic_year_title = pystr_of ''Film '' @ [40, 0x662, 0x660, 0x661, 0x669, 41]"

definition arabic_export :: frame where
  "arabic_export = export [(StrV arabic_year_title, IntV t0)]"

text \<open>
  Claim C6 in the words of the specification: the title contains an opening
  parenthesis, four ASCII digits (the code points \<open>48\<close> to \<open>57\<close>) and a closing
  parenthesis.
\<close>

fun spec_year_at :: "pystr \<Rightarrow> bool" where
  "spec_year_at (a # b # c # d # e # f # rest) \<longleftrightarrow>
     a = 40 \<and> (48 \<le> b \<and> b \<le> 57) \<and> (48 \<le> c \<and> c \<le> 57) \<and> (48 \<le> d \<and> d \<le> 57)
     \<and> (48 \<le> e \<and> e \<le> 57) \<and> f = 41"
| "spec_year_at _ \<longleftrightarrow> False"

fun spec_is_movie :: "pystr \<Rightarrow> bool" where
  "spec_is_movie [] \<longleftrightarrow> False"
| "spec_is_movie (x # xs) \<longleftrightarrow> spec_year_at (x # xs) \<or> spec_is_movie xs"

lemma getitem_take_rows:
  "getitem (take_rows ixs df) c =
     (case getitem df c of Inl e \<Rightarrow> Inl e | Inr cs \<Rightarrow> Inr (map (\<lambda>i. cs ! i) ixs))"
proof -
  have "filter (\<lambda>p. fst p = c) (map (\<lambda>p. (fst p, map (\<lambda>i. snd p ! i) ixs)) xs)
        = map (\<lambda>p. (fst p, map (\<lambda>i. snd p ! i) ixs)) (filter (\<lambda>p. fst p = c) xs)" for xs :: "(string \<times> cell list) list"
    by (induction xs) auto
  then show ?thesis
    by (auto simp: getitem_def take_rows_def split: list.splits)
qed

lemma column_names_set_col:
  "column_names (set_col c vs df) =
     (if c \<in> set (column_names df) then column_names df else column_names df @ [c])"
proof -
  have h: "map fst (map (\<lambda>p. if fst p = c then (c, vs) else p) xs) = map fst xs"
    for xs :: "(string \<times> cell list) list"
    by (induction xs) auto
  show ?thesis
    unfolding set_col_def column_names_def using h by simp
qed

lemma getitem_set_col_other:
  "c \<noteq> c' \<Longrightarrow> getitem (set_col c' vs df) c = getitem df c"
proof -
  assume ne: "c \<noteq> c'"
  have "filter (\<lambda>p. fst p = c) (map (\<lambda>p. if fst p = c' then (c', vs) else p) xs)
        = filter (\<lambda>p. fst p = c) xs" for xs :: "(string \<times> cell list) list"
    using ne by (induction xs) auto
  then show ?thesis using ne
    by (auto simp: getitem_def set_col_def)
qed

lemma index_set_col [simp]: "index (set_col c vs df) = index df"
  by (simp add: set_col_def)

lemma index_take_rows [simp]: "index (take_rows ixs df) = map (\<lambda>i. index df ! i) ixs"
  by (simp add: take_rows_def)

lemma those_map_Some:
  "those (map f xs) = Some ys \<longleftrightarrow> (\<forall>x\<in>set xs. f x \<noteq> None) \<and> ys = map (\<lambda>x. the (f x)) xs"
  by (induction xs arbitrary: ys) (auto split: option.splits)

lemma those_map_None:
  "those (map f xs) = None \<longleftrightarrow> (\<exists>x\<in>set xs. f x = None)"
  by (induction xs) (auto split: option.splits)

lemma datetime_values_Inr:
  "datetime_values c cs = Inr ds \<longleftrightarrow>
     (\<forall>x\<in>set cs. as_datetime x \<noteq> None) \<and> ds = map (\<lambda>x. the (as_datetime x)) cs"
  by (auto simp: datetime_values_def those_map_Some those_map_None split: option.splits)

lemma datetime_values_take:
  assumes "datetime_values c cs = Inr ds" "\<forall>i\<in>set ixs. i < length cs"
  shows "datetime_values c (map (\<lambda>i. cs ! i) ixs) = Inr (map (\<lambda>i. ds ! i) ixs)"
  using assms by (auto simp: datetime_values_Inr)

lemma map_nth_filter_idx:
  "map (\<lambda>i. xs ! i) (filter (\<lambda>i. Q (xs ! i)) [0..<length xs]) = filter Q xs"
proof -
  have "filter Q (map (\<lambda>i. xs ! i) [0..<length xs])
        = map (\<lambda>i. xs ! i) (filter (\<lambda>i. Q (xs ! i)) [0..<length xs])"
    by (simp add: filter_map comp_def)
  then show ?thesis by (simp add: map_nth)
qed

lemma non_nans_present:
  "map (\<lambda>i. the (items ! i)) (filter (\<lambda>i. items ! i \<noteq> None) [0..<length items]) = present items"
proof -
  have "map the (map (\<lambda>i. items ! i) (filter (\<lambda>i. items ! i \<noteq> None) [0..<length items]))
        = map the (filter (\<lambda>d. d \<noteq> None) items)"
    by (simp only: map_nth_filter_idx [of items "\<lambda>d. d \<noteq> None"])
  then show ?thesis by (simp add: present_def comp_def)
qed

lemma valid_argsort_mset:
  "valid_argsort argsort \<Longrightarrow> mset (argsort xs) = mset [0..<length xs]"
  by (simp add: valid_argsort_def)

lemma valid_argsort_set:
  "valid_argsort argsort \<Longrightarrow> set (argsort xs) = {0..<length xs}"
  using valid_argsort_mset [of argsort xs] by (metis mset_eq_setD set_upt)

lemma valid_argsort_sorted:
  "valid_argsort argsort \<Longrightarrow> map (\<lambda>j. xs ! j) (argsort xs) = sort xs"
proof -
  assume v: "valid_argsort argsort"
  have s: "sorted (map (\<lambda>j. xs ! j) (argsort xs))"
    using v by (simp add: valid_argsort_def)
  have "mset (map (\<lambda>j. xs ! j) (argsort xs)) = image_mset (\<lambda>j. xs ! j) (mset [0..<length xs])"
    using valid_argsort_mset [OF v, of xs] by (metis mset_map)
  also have "\<dots> = mset (map (\<lambda>j. xs ! j) [0..<length xs])" by simp
  also have "\<dots> = mset xs" by (simp add: map_nth)
  finally have m: "mset (map (\<lambda>j. xs ! j) (argsort xs)) = mset xs" .
  show ?thesis using properties_for_sort [OF m s] by simp
qed

lemma nargsort_mset:
  assumes "valid_argsort argsort"
  shows "mset (nargsort argsort items) = mset [0..<length items]"
proof -
  let ?idx = "[0..<length items]"
  let ?nn = "filter (\<lambda>i. items ! i \<noteq> None) ?idx"
  let ?na = "filter (\<lambda>i. items ! i = None) ?idx"
  let ?vals = "map (\<lambda>i. the (items ! i)) ?nn"
  have "mset (map (\<lambda>j. ?nn ! j) (argsort ?vals)) = image_mset (\<lambda>j. ?nn ! j) (mset (argsort ?vals))"
    by simp
  also have "\<dots> = image_mset (\<lambda>j. ?nn ! j) (mset [0..<length ?vals])"
    by (simp only: valid_argsort_mset [OF assms])
  also have "\<dots> = mset (map (\<lambda>j. ?nn ! j) [0..<length ?nn])" by simp
  also have "\<dots> = mset ?nn" by (simp only: map_nth)
  finally have a: "mset (map (\<lambda>j. ?nn ! j) (argsort ?vals)) = mset ?nn" .
  have "mset (filter (\<lambda>i. items ! i \<noteq> None) ys) + mset (filter (\<lambda>i. items ! i = None) ys)
        = mset ys" for ys :: "nat list"
    by (induction ys) auto
  then have b: "mset ?nn + mset ?na = mset ?idx" .
  show ?thesis
    unfolding nargsort_def Let_def using a b by (simp only: mset_append)
qed

lemma nargsort_set:
  "valid_argsort argsort \<Longrightarrow> set (nargsort argsort items) = {0..<length items}"
  using nargsort_mset [of argsort items] by (metis mset_eq_setD set_upt)

lemma nargsort_length:
  "valid_argsort argsort \<Longrightarrow> length (nargsort argsort items) = length items"
  using nargsort_mset [of argsort items] by (metis mset_eq_length length_upt minus_nat.diff_0)

lemma nargsort_keys:
  assumes v: "valid_argsort argsort"
  shows "map (\<lambda>i. items ! i) (nargsort argsort items) = sorted_dates items"
proof -
  let ?idx = "[0..<length items]"
  let ?nn = "filter (\<lambda>i. items ! i \<noteq> None) ?idx"
  let ?na = "filter (\<lambda>i. items ! i = None) ?idx"
  let ?vals = "map (\<lambda>i. the (items ! i)) ?nn"
  have vals: "?vals = present items" by (rule non_nans_present)
  have in_range: "\<forall>j\<in>set (argsort ?vals). j < length ?nn"
    using valid_argsort_set [OF v, of ?vals] by simp
  have "map (\<lambda>i. items ! i) (map (\<lambda>j. ?nn ! j) (argsort ?vals))
        = map (\<lambda>j. Some (?vals ! j)) (argsort ?vals)"
  proof (simp only: map_map comp_def, rule map_cong [OF refl])
    fix j assume "j \<in> set (argsort ?vals)"
    then have j: "j < length ?nn" using in_range by blast
    then have "?nn ! j \<in> set ?nn" by (rule nth_mem)
    then have "items ! (?nn ! j) \<noteq> None" by simp
    then show "items ! (?nn ! j) = Some (?vals ! j)" using j by (simp del: upt_Suc)
  qed
  also have "\<dots> = map Some (map (\<lambda>j. ?vals ! j) (argsort ?vals))" by (simp add: comp_def)
  also have "\<dots> = map Some (sort (present items))"
    by (simp only: valid_argsort_sorted [OF v] vals)
  finally have a: "map (\<lambda>i. items ! i) (map (\<lambda>j. ?nn ! j) (argsort ?vals))
        = map Some (sort (present items))" .
  have "map (\<lambda>i. items ! i) ?na = filter (\<lambda>d. d = None) items"
    by (rule map_nth_filter_idx)
  also have "\<dots> = replicate (length (filter (\<lambda>d. d = None) items)) None"
    by (induction items) auto
  finally have b: "map (\<lambda>i. items ! i) ?na
      = replicate (length (filter (\<lambda>d. d = None) items)) None" .
  show ?thesis
    unfolding nargsort_def Let_def sorted_dates_def map_append a b ..
qed

lemma length_diff_from [simp]: "length (diff_from p ds) = length ds"
  by (induction ds arbitrary: p) auto

lemma length_diff [simp]: "length (diff ds) = length ds"
  by (simp add: diff_def split: list.splits)

lemma length_cumsum_from [simp]: "length (cumsum_from a bs) = length bs"
  by (induction bs arbitrary: a) auto

lemma length_assign_sessions [simp]: "length (assign_sessions ds) = length ds"
  by (simp add: assign_sessions_def cumsum_def)

lemma diff_from_nth:
  "i < length ds \<Longrightarrow> diff_from p ds ! i = td_sub (ds ! i) (if i = 0 then p else ds ! (i - 1))"
proof (induction ds arbitrary: p i)
  case Nil
  then show ?case by simp
next
  case (Cons d ds)
  show ?case
  proof (cases i)
    case 0
    then show ?thesis by simp
  next
    case (Suc j)
    then have "j < length ds" using Cons.prems by simp
    from Cons.IH [OF this, of d] Suc show ?thesis by (cases j) auto
  qed
qed

lemma diff_nth_0: "ds \<noteq> [] \<Longrightarrow> diff ds ! 0 = None"
  by (cases ds) (auto simp: diff_def)

lemma diff_nth_Suc: "Suc i < length ds \<Longrightarrow> diff ds ! Suc i = td_sub (ds ! Suc i) (ds ! i)"
  by (cases ds) (auto simp: diff_def diff_from_nth)

lemma cumsum_from_nth_0:
  "bs \<noteq> [] \<Longrightarrow> cumsum_from a bs ! 0 = (if bs ! 0 then Suc a else a)"
  by (cases bs) auto

lemma cumsum_from_nth_Suc:
  "Suc i < length bs \<Longrightarrow>
     cumsum_from a bs ! Suc i = (if bs ! Suc i then Suc (cumsum_from a bs ! i) else cumsum_from a bs ! i)"
proof (induction bs arbitrary: a i)
  case Nil
  then show ?case by simp
next
  case (Cons b bs)
  then have ne: "bs \<noteq> []" by auto
  show ?case
  proof (cases i)
    case 0
    then show ?thesis using ne by (simp add: cumsum_from_nth_0)
  next
    case (Suc j)
    then have "Suc j < length bs" using Cons.prems by simp
    from Cons.IH [OF this] Suc show ?thesis by simp
  qed
qed

lemma cumsum_from_ge: "x \<in> set (cumsum_from a bs) \<Longrightarrow> a \<le> x"
  by (induction bs arbitrary: a) (auto split: if_splits dest: Suc_leD)

lemma sorted_cumsum_from: "sorted (cumsum_from a bs)"
  by (induction bs arbitrary: a) (auto dest: cumsum_from_ge Suc_leD)

lemma set_cumsum_from:
  "insert a (set (cumsum_from a bs)) = {a..a + length (filter (\<lambda>b. b) bs)}"
proof (induction bs arbitrary: a)
  case Nil
  then show ?case by simp
next
  case (Cons b bs)
  show ?case
  proof (cases b)
    case True
    have "insert a (insert (Suc a) (set (cumsum_from (Suc a) bs)))
          = insert a {Suc a..Suc a + length (filter (\<lambda>b. b) bs)}"
      by (simp only: Cons.IH)
    also have "\<dots> = {a..a + Suc (length (filter (\<lambda>b. b) bs))}" by auto
    finally show ?thesis using True by simp
  next
    case False
    then show ?thesis using Cons.IH [of a] by auto
  qed
qed

lemma assign_sessions_Nil [simp]: "assign_sessions [] = []"
  by (simp add: assign_sessions_def cumsum_def diff_def)

lemma assign_sessions_nth_0: "ds \<noteq> [] \<Longrightarrow> assign_sessions ds ! 0 = 0"
  by (cases ds) (auto simp: assign_sessions_def cumsum_def diff_def gt_threshold_def)

lemma assign_sessions_nth_Suc:
  "Suc i < length ds \<Longrightarrow>
     assign_sessions ds ! Suc i =
       (if gt_threshold (td_sub (ds ! Suc i) (ds ! i))
        then Suc (assign_sessions ds ! i) else assign_sessions ds ! i)"
  by (simp add: assign_sessions_def cumsum_def cumsum_from_nth_Suc diff_nth_Suc)

lemma sorted_assign_sessions: "sorted (assign_sessions ds)"
  by (simp add: assign_sessions_def cumsum_def sorted_cumsum_from)

lemma set_assign_sessions: "set (assign_sessions ds) = {0..<n_sessions ds}"
proof (cases ds)
  case Nil
  then show ?thesis by (simp add: n_sessions_def)
next
  case (Cons d ds')
  let ?bs = "map gt_threshold (diff_from d ds')"
  have "set (assign_sessions ds) = insert 0 (set (cumsum_from 0 ?bs))"
    using Cons by (simp add: assign_sessions_def cumsum_def diff_def gt_threshold_def)
  also have "\<dots> = {0..length (filter (\<lambda>b. b) ?bs)}"
    using set_cumsum_from [of 0 ?bs] by simp
  also have "length (filter (\<lambda>b. b) ?bs) = length (filter gt_threshold (diff_from d ds'))"
    by (simp add: filter_map comp_def)
  also have "{0..length (filter gt_threshold (diff_from d ds'))} = {0..<n_sessions ds}"
    using Cons by (auto simp: n_sessions_def diff_def gt_threshold_def)
  finally show ?thesis .
qed

lemma session_keys: "sort (remdups (assign_sessions ds)) = [0..<n_sessions ds]"
proof -
  have "sort (remdups (assign_sessions ds)) = sorted_list_of_set (set (assign_sessions ds))"
    by (simp add: sorted_list_of_set_sort_remdups)
  then show ?thesis by (simp add: set_assign_sessions)
qed

lemma sorted_filter_split:
  "sorted (map f xs) \<Longrightarrow> filter (\<lambda>x. f x < k) xs @ filter (\<lambda>x. \<not> f x < k) xs = xs"
  for f :: "'a \<Rightarrow> nat"
proof (induction xs)
  case Nil
  then show ?case by simp
next
  case (Cons x xs)
  then have le: "\<forall>y\<in>set xs. f x \<le> f y" and s: "sorted (map f xs)" by auto
  show ?case
  proof (cases "f x < k")
    case True
    then show ?thesis using Cons.IH [OF s] by simp
  next
    case False
    then have "\<forall>y\<in>set xs. \<not> f y < k" using le by auto
    then have "filter (\<lambda>x. f x < k) xs = []" "filter (\<lambda>x. \<not> f x < k) xs = xs"
      by (auto simp: filter_empty_conv filter_id_conv)
    then show ?thesis using False by simp
  qed
qed

lemma concat_groups_sorted:
  fixes f :: "'a \<Rightarrow> nat"
  assumes "sorted (map f xs)"
  shows "concat (map (\<lambda>g. filter (\<lambda>x. f x = g) xs) [0..<k]) = filter (\<lambda>x. f x < k) xs"
proof (induction k)
  case 0
  then show ?case by simp
next
  case (Suc k)
  let ?ys = "filter (\<lambda>x. f x < Suc k) xs"
  have "sorted (map f ?ys)" using assms by (simp add: sorted_filter)
  from sorted_filter_split [OF this, of k]
  have "filter (\<lambda>x. f x < k) ?ys @ filter (\<lambda>x. \<not> f x < k) ?ys = ?ys" .
  moreover have "filter (\<lambda>x. f x < k) ?ys = filter (\<lambda>x. f x < k) xs"
    by (auto intro: filter_cong)
  moreover have "filter (\<lambda>x. \<not> f x < k) ?ys = filter (\<lambda>x. f x = k) xs"
    by (auto intro: filter_cong)
  ultimately have "filter (\<lambda>x. f x < k) xs @ filter (\<lambda>x. f x = k) xs = ?ys" by simp
  then show ?case using Suc.IH by simp
qed

lemma concat_group_rows:
  assumes "sorted keys" "length keys = length xs" "\<forall>g\<in>set keys. g < k"
  shows "concat (map (group_rows keys xs) [0..<k]) = xs"
proof -
  have s: "sorted (map fst (zip keys xs))" using assms by simp
  have all: "\<forall>p\<in>set (zip keys xs). fst p < k"
    using assms(3) by (auto dest: set_zip_leftD)
  have eq: "group_rows keys xs = (\<lambda>g. map snd (filter (\<lambda>p. fst p = g) (zip keys xs)))"
    by (rule ext) (simp add: group_rows_def)
  have "concat (map (group_rows keys xs) [0..<k])
        = map snd (concat (map (\<lambda>g. filter (\<lambda>p. fst p = g) (zip keys xs)) [0..<k]))"
    by (simp add: eq map_concat comp_def)
  also have "\<dots> = map snd (filter (\<lambda>p. fst p < k) (zip keys xs))"
    by (simp only: concat_groups_sorted [OF s])
  also have "\<dots> = map snd (zip keys xs)" using all by (simp add: filter_id_conv)
  also have "\<dots> = xs" using assms(2) by simp
  finally show ?thesis .
qed

lemma group_rows_nonempty:
  "length keys = length xs \<Longrightarrow> g \<in> set keys \<Longrightarrow> group_rows keys xs g \<noteq> []"
proof -
  assume len: "length keys = length xs" and g: "g \<in> set keys"
  then obtain i where i: "i < length keys" "keys ! i = g" by (auto simp: in_set_conv_nth)
  then have "(g, xs ! i) \<in> set (zip keys xs)" using len by (auto simp: set_zip)
  then show ?thesis by (force simp: group_rows_def filter_empty_conv)
qed

lemma getitem_length:
  "wf_frame df \<Longrightarrow> getitem df c = Inr cs \<Longrightarrow> length cs = nrows df"
proof -
  assume wf: "wf_frame df" and g: "getitem df c = Inr cs"
  then obtain p where "filter (\<lambda>p. fst p = c) (columns df) = [p]" "snd p = cs"
    by (auto simp: getitem_def split: list.splits)
  then have "p \<in> set (filter (\<lambda>p. fst p = c) (columns df))" by simp
  then have "p \<in> set (columns df)" by simp
  then show ?thesis using wf \<open>snd p = cs\<close> by (auto simp: wf_frame_def list_all_iff)
qed

lemma datetime_values_length:
  "datetime_values c cs = Inr ds \<Longrightarrow> length ds = length cs"
  by (auto simp: datetime_values_Inr)

lemma segment_eq:
  assumes v: "valid_argsort argsort"
  shows "segment argsort df =
     (case getitem df ''date'' of
        Inl e \<Rightarrow> Inl e
      | Inr dcol \<Rightarrow>
          (case datetime_values ''date'' dcol of
             Inl e \<Rightarrow> Inl e
           | Inr items \<Rightarrow>
               Inr \<lparr>df_sorted = annotate (sorted_dates items) (take_rows (nargsort argsort items) df),
                    date_values = sorted_dates items,
                    session_ids = assign_sessions (sorted_dates items)\<rparr>))"
proof (cases "getitem df ''date''")
  case (Inl e)
  then show ?thesis by (simp add: segment_def sort_values_def)
next
  case (Inr dcol)
  note g = this
  show ?thesis
  proof (cases "datetime_values ''date'' dcol")
    case (Inl e)
    then show ?thesis using g by (simp add: segment_def sort_values_def)
  next
    case (Inr items)
    let ?p = "nargsort argsort items"
    have len: "length items = length dcol" using Inr by (rule datetime_values_length)
    have rng: "\<forall>i\<in>set ?p. i < length dcol"
      using nargsort_set [OF v, of items] len by simp
    have g2: "getitem (take_rows ?p df) ''date'' = Inr (map (\<lambda>i. dcol ! i) ?p)"
      by (simp add: getitem_take_rows g)
    have d2: "datetime_values ''date'' (map (\<lambda>i. dcol ! i) ?p) = Inr (sorted_dates items)"
      using datetime_values_take [OF Inr rng] by (simp only: nargsort_keys [OF v])
    show ?thesis
      by (simp add: segment_def sort_values_def g Inr g2 d2 Let_def annotate_def
          assign_sessions_def)
  qed
qed

lemma index_annotate [simp]: "index (annotate ds s) = index s"
  by (simp add: annotate_def)

lemma getitem_annotate_title [simp]:
  "getitem (annotate ds s) ''title'' = getitem s ''title''"
  by (simp add: annotate_def getitem_set_col_other)

lemma getitem_annotate_date [simp]:
  "getitem (annotate ds s) ''date'' = getitem s ''date''"
  by (simp add: annotate_def getitem_set_col_other)

lemma valid_insertion_argsort: "valid_argsort insertion_argsort"
  by (simp add: valid_argsort_def insertion_argsort_def)

lemma sorted_wrt_sorted_dates: "sorted_wrt date_le (sorted_dates items)"
proof -
  have "sorted_wrt date_le (map Some xs)" if "sorted xs" for xs :: "int list"
    using that by (induction xs) (auto simp: date_le_def)
  then have a: "sorted_wrt date_le (map Some (sort (present items)))" by simp
  have b: "sorted_wrt date_le (replicate k None)" for k
    by (induction k) (auto simp: date_le_def)
  show ?thesis
    unfolding sorted_dates_def by (auto simp: sorted_wrt_append a b date_le_def)
qed

lemma length_sorted_dates [simp]: "length (sorted_dates items) = length items"
proof -
  have "length (filter (\<lambda>d. d \<noteq> None) items) + length (filter (\<lambda>d. d = None) items) = length items"
    by (induction items) auto
  then show ?thesis by (simp add: sorted_dates_def present_def)
qed

lemma mset_map_nth_perm:
  assumes "mset p = mset [0..<length xs]"
  shows "mset (map (\<lambda>i. xs ! i) p) = mset xs"
proof -
  have "mset (map (\<lambda>i. xs ! i) p) = image_mset (\<lambda>i. xs ! i) (mset [0..<length xs])"
    using assms by (metis mset_map)
  also have "\<dots> = mset (map (\<lambda>i. xs ! i) [0..<length xs])" by simp
  also have "\<dots> = mset xs" by (simp only: map_nth)
  finally show ?thesis .
qed

lemma zip_map_nth: "zip (map (\<lambda>i. xs ! i) p) (map (\<lambda>i. ys ! i) p) = map (\<lambda>i. (zip xs ys) ! i) p"
  if "\<forall>i\<in>set p. i < length xs \<and> i < length ys"
  using that by (induction p) auto

lemma wf_history: "wf_frame (history rs)"
  by (simp add: wf_frame_def history_def column_names_def nrows_def)

lemma getitem_history_date: "getitem (history rs) ''date'' = Inr (map (\<lambda>r. TsV (snd r)) rs)"
  by (simp add: getitem_def history_def)

lemma getitem_history_title: "getitem (history rs) ''title'' = Inr (map (\<lambda>r. StrV (fst r)) rs)"
  by (simp add: getitem_def history_def)

lemma datetime_values_history:
  "datetime_values ''date'' (map (\<lambda>r. TsV (snd r)) rs) = Inr (map (\<lambda>r. Some (snd r)) rs)"
  by (simp add: datetime_values_Inr as_datetime_def)

lemma nrows_history: "nrows (history rs) = length rs"
  by (simp add: nrows_def history_def)

lemma date_le_refl: "date_le a a"
  by (simp add: date_le_def split: option.splits)

lemma date_le_antisym: "date_le a b \<Longrightarrow> date_le b a \<Longrightarrow> a = b"
  by (auto simp: date_le_def split: option.splits)

lemma not_gt_threshold_same: "\<not> gt_threshold (td_sub a a)"
  by (simp add: gt_threshold_def td_sub_def binge_threshold_def split: option.splits)

lemma sorted_wrt_date_le_nth:
  "sorted_wrt date_le ds \<Longrightarrow> i \<le> j \<Longrightarrow> j < length ds \<Longrightarrow> date_le (ds ! i) (ds ! j)"
  by (cases "i = j") (auto simp: date_le_refl sorted_wrt_iff_nth_less)

lemma assign_sessions_equal_dates_up:
  assumes s: "sorted_wrt date_le ds"
  shows "i + k < length ds \<Longrightarrow> ds ! i = ds ! (i + k) \<Longrightarrow>
         assign_sessions ds ! i = assign_sessions ds ! (i + k)"
proof (induction k)
  case 0
  then show ?case by simp
next
  case (Suc k)
  have lt: "i + k < length ds" using Suc.prems by simp
  have a: "date_le (ds ! i) (ds ! (i + k))"
    using sorted_wrt_date_le_nth [OF s _ lt, of i] by simp
  have b: "date_le (ds ! (i + k)) (ds ! Suc (i + k))"
    using sorted_wrt_date_le_nth [OF s, of "i + k" "Suc (i + k)"] Suc.prems by simp
  have eq: "ds ! (i + k) = ds ! i"
    using a b Suc.prems(2) by (auto intro: date_le_antisym)
  then have ih: "assign_sessions ds ! i = assign_sessions ds ! (i + k)"
    using Suc.IH lt by simp
  have "assign_sessions ds ! Suc (i + k) = assign_sessions ds ! (i + k)"
    using Suc.prems eq by (simp add: assign_sessions_nth_Suc not_gt_threshold_same)
  then show ?case using ih by simp
qed

lemma assign_sessions_equal_dates:
  assumes s: "sorted_wrt date_le ds" and i: "i < length ds" and j: "j < length ds"
    and eq: "ds ! i = ds ! j"
  shows "assign_sessions ds ! i = assign_sessions ds ! j"
proof (cases "i \<le> j")
  case True
  then obtain k where "j = i + k" by (auto simp: le_iff_add)
  then show ?thesis using assign_sessions_equal_dates_up [OF s, of i k] j eq by simp
next
  case False
  then obtain k where "i = j + k" by (metis le_iff_add nat_le_linear)
  then show ?thesis using assign_sessions_equal_dates_up [OF s, of j k] i eq by simp
qed

lemma sessions_function_of_date:
  assumes s: "sorted_wrt date_le ds"
  shows "\<exists>F. \<forall>j<length ds. assign_sessions ds ! j = F (ds ! j)"
proof -
  define pick where "pick d = (SOME k. k < length ds \<and> ds ! k = d)" for d
  have "assign_sessions ds ! j = assign_sessions ds ! pick (ds ! j)" if j: "j < length ds" for j
  proof -
    have "\<exists>k. k < length ds \<and> ds ! k = ds ! j" using j by blast
    then have "pick (ds ! j) < length ds \<and> ds ! pick (ds ! j) = ds ! j"
      unfolding pick_def by (rule someI_ex)
    then show ?thesis
      using assign_sessions_equal_dates [OF s j, of "pick (ds ! j)"] by simp
  qed
  then have "\<forall>j<length ds. assign_sessions ds ! j = (\<lambda>d. assign_sessions ds ! pick d) (ds ! j)"
    by simp
  then show ?thesis by (rule exI [of _ "\<lambda>d. assign_sessions ds ! pick d"])
qed

lemma zip_sessions_sorted:
  assumes v: "valid_argsort argsort"
    and F: "\<forall>j<length items. assign_sessions (sorted_dates items) ! j = F (sorted_dates items ! j)"
  shows "zip (assign_sessions (sorted_dates items)) (map (\<lambda>i. xs ! i) (nargsort argsort items))
         = map (\<lambda>i. (F (items ! i), xs ! i)) (nargsort argsort items)"
proof -
  let ?p = "nargsort argsort items"
  let ?ds = "sorted_dates items"
  have len: "length ?p = length items" by (rule nargsort_length [OF v])
  have keys: "map (\<lambda>i. items ! i) ?p = ?ds" by (rule nargsort_keys [OF v])
  have "assign_sessions ?ds = map (\<lambda>i. F (items ! i)) ?p"
  proof (rule nth_equalityI)
    show "length (assign_sessions ?ds) = length (map (\<lambda>i. F (items ! i)) ?p)"
      by (simp add: len)
  next
    fix j assume "j < length (assign_sessions ?ds)"
    then have j: "j < length items" by simp
    then have "assign_sessions ?ds ! j = F (?ds ! j)" using F by blast
    also have "?ds ! j = items ! (?p ! j)"
      using j len by (simp add: keys [symmetric])
    finally show "assign_sessions ?ds ! j = map (\<lambda>i. F (items ! i)) ?p ! j"
      using j len by simp
  qed
  then show ?thesis by (simp add: zip_map_map zip_same_conv_map)
qed

lemma mset_zip_sessions_sorted:
  assumes v: "valid_argsort argsort"
    and F: "\<forall>j<length items. assign_sessions (sorted_dates items) ! j = F (sorted_dates items ! j)"
  shows "mset (zip (assign_sessions (sorted_dates items)) (map (\<lambda>i. xs ! i) (nargsort argsort items)))
         = image_mset (\<lambda>i. (F (items ! i), xs ! i)) (mset [0..<length items])"
  by (simp only: zip_sessions_sorted [OF v F] mset_map nargsort_mset [OF v])

lemma mset_zip_sessions_independent:
  assumes "valid_argsort a1" "valid_argsort a2"
  shows "mset (zip (assign_sessions (sorted_dates items)) (map (\<lambda>i. xs ! i) (nargsort a1 items)))
       = mset (zip (assign_sessions (sorted_dates items)) (map (\<lambda>i. xs ! i) (nargsort a2 items)))"
proof -
  obtain F where F: "\<forall>j<length items. assign_sessions (sorted_dates items) ! j = F (sorted_dates items ! j)"
    using sessions_function_of_date [OF sorted_wrt_sorted_dates, of items] by auto
  show ?thesis
    by (simp only: mset_zip_sessions_sorted [OF assms(1) F] mset_zip_sessions_sorted [OF assms(2) F])
qed

lemma count_group_rows:
  "length (filter P (group_rows keys xs g))
   = size (filter_mset (\<lambda>p. fst p = g \<and> P (snd p)) (mset (zip keys xs)))"
proof -
  have "length (filter P (group_rows keys xs g))
        = length (filter (\<lambda>p. fst p = g \<and> P (snd p)) (zip keys xs))"
    by (simp add: group_rows_def filter_map comp_def conj_commute)
  then show ?thesis by (simp flip: mset_filter)
qed

lemma agg_session_independent:
  assumes "mset (zip keys ts1) = mset (zip keys ts2)"
  shows "agg_session keys ts1 dates g = agg_session keys ts2 dates g"
  by (simp add: agg_session_def count_group_rows assms)

lemma mset_zip_swap: "mset (zip xs ys) = image_mset prod.swap (mset (zip ys xs))"
proof -
  have "zip xs ys = map prod.swap (zip ys xs)"
    by (induction xs arbitrary: ys) (auto simp: zip_Cons1 split: list.splits)
  then show ?thesis by (simp only: mset_map)
qed

lemma valid_descending_ties_argsort: "valid_argsort descending_ties_argsort"
proof -
  have "sorted (map (\<lambda>j. xs ! j) (rev l))" if "sorted (map (\<lambda>j. - (xs ! j)) l)"
    for xs :: "int list" and l :: "nat list"
    using that by (simp add: sorted_map sorted_wrt_rev)
  then show ?thesis
    by (simp add: valid_argsort_def descending_ties_argsort_def)
qed

lemma nargsort_single:
  assumes v: "valid_argsort argsort"
  shows "nargsort argsort [d] = [0]"
proof -
  have "mset (nargsort argsort [d]) = {#0#}"
    using nargsort_mset [OF v, of "[d]"] by simp
  then show ?thesis by (simp add: mset_single_iff_right [symmetric] del: mset_single_iff_right)
qed

lemma to_datetime_from_all:
  "\<forall>c\<in>set cs. parse_date lib col c \<noteq> None \<Longrightarrow>
     to_datetime_from lib col i cs = Inr (map (\<lambda>c. the (parse_date lib col c)) cs)"
  by (induction cs arbitrary: i) (auto split: option.splits)

lemma to_datetime_from_Inr_D:
  "to_datetime_from lib col i cs = Inr ds \<Longrightarrow>
     (\<forall>c\<in>set cs. parse_date lib col c \<noteq> None) \<and> ds = map (\<lambda>c. the (parse_date lib col c)) cs"
  by (induction cs arbitrary: i ds) (auto split: option.splits sum.splits)

lemma to_datetime_from_Inr:
  "to_datetime_from lib col i cs = Inr ds \<longleftrightarrow>
     (\<forall>c\<in>set cs. parse_date lib col c \<noteq> None) \<and> ds = map (\<lambda>c. the (parse_date lib col c)) cs"
  using to_datetime_from_all [of cs lib col i] to_datetime_from_Inr_D [of lib col i cs ds]
  by auto


lemma label_count_distinct:
  assumes "distinct (column_names df)"
  shows "label_count c df \<le> 1"
proof -
  have "distinct (map fst xs) \<Longrightarrow> length (filter (\<lambda>p. fst p = c) xs) \<le> 1"
    for xs :: "(string \<times> cell list) list"
  proof (induction xs)
    case Nil
    then show ?case by simp
  next
    case (Cons x xs)
    show ?case
    proof (cases "fst x = c")
      case True
      have "fst x \<notin> fst ` set xs" using Cons.prems by simp
      then have "\<forall>p\<in>set xs. fst p \<noteq> c" using True by (metis imageI)
      then have "filter (\<lambda>p. fst p = c) xs = []"
        by (simp add: filter_empty_conv)
      then show ?thesis using True by simp
    next
      case False
      then show ?thesis using Cons by simp
    qed
  qed
  then show ?thesis using assms by (simp add: label_count_def column_names_def)
qed

lemma getitem_label_count: "getitem df c = Inr cs \<Longrightarrow> label_count c df = 1"
  by (auto simp: getitem_def label_count_def split: list.splits)

lemma label_count_set_col_other:
  "c \<noteq> c' \<Longrightarrow> label_count c (set_col c' vs df) = label_count c df"
proof -
  assume ne: "c \<noteq> c'"
  have "filter (\<lambda>p. fst p = c) (map (\<lambda>p. if fst p = c' then (c', vs) else p) xs)
        = filter (\<lambda>p. fst p = c) xs" for xs :: "(string \<times> cell list) list"
    using ne by (induction xs) auto
  then show ?thesis using ne by (simp add: label_count_def set_col_def)
qed

lemma getitem_set_col_same:
  "label_count c df \<le> 1 \<Longrightarrow> getitem (set_col c vs df) c = Inr vs"
proof -
  assume le: "label_count c df \<le> 1"
  have in_names: "c \<in> set (column_names df) \<longleftrightarrow> filter (\<lambda>p. fst p = c) (columns df) \<noteq> []"
    by (auto simp: column_names_def filter_empty_conv)
  have m: "filter (\<lambda>p. fst p = c) (map (\<lambda>p. if fst p = c then (c, vs) else p) xs)
        = map (\<lambda>p. (c, vs)) (filter (\<lambda>p. fst p = c) xs)" for xs :: "(string \<times> cell list) list"
    by (induction xs) auto
  show ?thesis
  proof (cases "c \<in> set (column_names df)")
    case True
    then obtain p where "filter (\<lambda>p. fst p = c) (columns df) = [p]"
      using le in_names by (cases "filter (\<lambda>p. fst p = c) (columns df)") (auto simp: label_count_def)
    then show ?thesis using True by (simp add: getitem_def set_col_def m)
  next
    case False
    then have "filter (\<lambda>p. fst p = c) (columns df) = []" using in_names by simp
    then show ?thesis using False by (simp add: getitem_def set_col_def)
  qed
qed

lemma nrows_set_col [simp]: "nrows (set_col c vs df) = nrows df"
  by (simp add: nrows_def)

lemma lengths_set_col:
  assumes "list_all (\<lambda>p. length (snd p) = n) (columns df)" "length vs = n"
  shows "list_all (\<lambda>p. length (snd p) = n) (columns (set_col c vs df))"
  using assms by (auto simp: set_col_def list_all_iff)

lemma index_rename_col [simp]: "index (rename_col old new df) = index df"
  by (simp add: rename_col_def)

lemma cells_rename_col [simp]: "map snd (columns (rename_col old new df)) = map snd (columns df)"
  by (simp add: rename_col_def comp_def)

lemma index_rename_columns [simp]: "index (rename_columns df) = index df"
proof -
  have "index (fold (\<lambda>m d. if fst m \<in> set (column_names d) then rename_col (fst m) (snd m) d else d) ms df)
        = index df" for ms
    by (induction ms arbitrary: df) auto
  then show ?thesis by (simp add: rename_columns_def)
qed

lemma cells_rename_columns [simp]: "map snd (columns (rename_columns df)) = map snd (columns df)"
proof -
  have "map snd (columns (fold (\<lambda>m d. if fst m \<in> set (column_names d) then rename_col (fst m) (snd m) d else d) ms df))
        = map snd (columns df)" for ms
    by (induction ms arbitrary: df) auto
  then show ?thesis by (simp add: rename_columns_def)
qed

lemma nrows_rename_columns [simp]: "nrows (rename_columns df) = nrows df"
  by (simp add: nrows_def)

lemma lengths_rename_columns:
  "list_all (\<lambda>p. length (snd p) = n) (columns (rename_columns df))
   \<longleftrightarrow> list_all (\<lambda>p. length (snd p) = n) (columns df)"
proof -
  have "list_all (\<lambda>p. length (snd p) = n) xs \<longleftrightarrow> list_all (\<lambda>cs. length cs = n) (map snd xs)"
    for xs :: "(string \<times> cell list) list"
    by (simp add: list_all_iff)
  then show ?thesis by (simp only: cells_rename_columns)
qed

lemma label_count_rename_col:
  "c \<noteq> old \<Longrightarrow> c \<noteq> new \<Longrightarrow> label_count c (rename_col old new df) = label_count c df"
proof -
  assume ne: "c \<noteq> old" "c \<noteq> new"
  have "filter (\<lambda>p. fst p = c) (map (\<lambda>p. (if fst p = old then new else fst p, snd p)) xs)
        = map (\<lambda>p. (if fst p = old then new else fst p, snd p)) (filter (\<lambda>p. fst p = c) xs)"
    for xs :: "(string \<times> cell list) list"
    using ne by (induction xs) auto
  then show ?thesis by (simp add: label_count_def rename_col_def)
qed

lemma label_count_rename_columns:
  assumes "c \<notin> {''Title'', ''Date'', ''Profile Name'', ''title'', ''date'', ''profile_name''}"
  shows "label_count c (rename_columns df) = label_count c df"
proof -
  have "\<forall>m\<in>set ms. c \<noteq> fst m \<and> c \<noteq> snd m \<Longrightarrow>
        label_count c (fold (\<lambda>m d. if fst m \<in> set (column_names d) then rename_col (fst m) (snd m) d else d) ms df)
        = label_count c df" for ms
    by (induction ms arbitrary: df) (auto simp: label_count_rename_col)
  moreover have "\<forall>m\<in>set column_mapping. c \<noteq> fst m \<and> c \<noteq> snd m"
    using assms by (auto simp: column_mapping_def)
  ultimately show ?thesis by (simp add: rename_columns_def)
qed

lemma clean_data_eq:
  "clean_data lib df =
     (case getitem (rename_columns df) ''date'' of
        Inl e \<Rightarrow> Inl e
      | Inr dcol \<Rightarrow>
          (case to_datetime lib dcol of
             Inl e \<Rightarrow> Inl e
           | Inr dates \<Rightarrow>
               (case getitem (rename_columns df) ''title'' of
                  Inl e \<Rightarrow> Inl e
                | Inr tcol \<Rightarrow> Inr (with_derived lib dates tcol (rename_columns df)))))"
  by (simp add: clean_data_def with_derived_def Let_def getitem_set_col_other
      split: sum.splits)

lemma index_with_derived [simp]: "index (with_derived lib dates tcol d) = index d"
  by (simp add: with_derived_def)

lemma nrows_with_derived [simp]: "nrows (with_derived lib dates tcol d) = nrows d"
  by (simp add: nrows_def)

lemma getitem_with_derived_other:
  "c \<notin> derived_labels \<Longrightarrow> getitem (with_derived lib dates tcol d) c = getitem d c"
  by (simp add: with_derived_def derived_labels_def getitem_set_col_other)

lemma getitem_with_derived_date:
  "label_count ''date'' d \<le> 1 \<Longrightarrow>
     getitem (with_derived lib dates tcol d) ''date'' = Inr (map ts_cell dates)"
  by (simp add: with_derived_def getitem_set_col_other getitem_set_col_same)

lemma getitem_with_derived_is_movie:
  "label_count ''is_movie'' d \<le> 1 \<Longrightarrow>
     getitem (with_derived lib dates tcol d) ''is_movie''
       = Inr (map BoolV (map str_contains_year tcol))"
  by (simp add: with_derived_def getitem_set_col_other getitem_set_col_same
      label_count_set_col_other)

lemma getitem_with_derived_is_tv_show:
  "label_count ''is_tv_show'' d \<le> 1 \<Longrightarrow>
     getitem (with_derived lib dates tcol d) ''is_tv_show''
       = Inr (map (\<lambda>b. BoolV (\<not> b)) (map str_contains_year tcol))"
  by (simp add: with_derived_def getitem_set_col_other getitem_set_col_same
      label_count_set_col_other)

lemma length_dt_field [simp]: "length (dt_field f ds) = length ds"
  by (simp add: dt_field_def)

lemma lengths_with_derived:
  assumes "list_all (\<lambda>p. length (snd p) = n) (columns d)" "length dates = n" "length tcol = n"
  shows "list_all (\<lambda>p. length (snd p) = n) (columns (with_derived lib dates tcol d))"
  unfolding with_derived_def using assms by (intro lengths_set_col) simp_all

lemma to_datetime_Inr:
  "to_datetime lib col = Inr ds \<longleftrightarrow>
     (\<forall>c\<in>set col. parse_date lib col c \<noteq> None) \<and> ds = map (\<lambda>c. the (parse_date lib col c)) col"
  by (simp add: to_datetime_def to_datetime_from_Inr)

lemma getitem_length_cols:
  assumes "list_all (\<lambda>p. length (snd p) = n) (columns d)" "getitem d c = Inr cs"
  shows "length cs = n"
proof -
  obtain p where "filter (\<lambda>p. fst p = c) (columns d) = [p]" "snd p = cs"
    using assms(2) by (auto simp: getitem_def split: list.splits)
  then have "p \<in> set (filter (\<lambda>p. fst p = c) (columns d))" by simp
  then have "p \<in> set (columns d)" by simp
  then show ?thesis using assms(1) \<open>snd p = cs\<close> by (auto simp: list_all_iff)
qed

lemma match_year_at_iff:
  "match_year_at s \<longleftrightarrow>
     (\<exists>d1 d2 d3 d4 post. s = [40, d1, d2, d3, d4, 41] @ post
        \<and> re_digit d1 \<and> re_digit d2 \<and> re_digit d3 \<and> re_digit d4)"
  by (cases s rule: match_year_at.cases) auto

lemma re_search_year_iff:
  "re_search_year s \<longleftrightarrow>
     (\<exists>pre d1 d2 d3 d4 post. s = pre @ [40, d1, d2, d3, d4, 41] @ post
        \<and> re_digit d1 \<and> re_digit d2 \<and> re_digit d3 \<and> re_digit d4)"
proof (induction s)
  case Nil
  then show ?case by simp
next
  case (Cons x xs)
  show ?case
  proof
    assume "re_search_year (x # xs)"
    then consider "match_year_at (x # xs)" | "re_search_year xs" by auto
    then show "\<exists>pre d1 d2 d3 d4 post. x # xs = pre @ [40, d1, d2, d3, d4, 41] @ post
        \<and> re_digit d1 \<and> re_digit d2 \<and> re_digit d3 \<and> re_digit d4"
    proof cases
      case 1
      then obtain d1 d2 d3 d4 post where "x # xs = [] @ [40, d1, d2, d3, d4, 41] @ post"
        "re_digit d1" "re_digit d2" "re_digit d3" "re_digit d4"
        by (auto simp: match_year_at_iff)
      then show ?thesis by blast
    next
      case 2
      then obtain pre d1 d2 d3 d4 post where "xs = pre @ [40, d1, d2, d3, d4, 41] @ post"
        "re_digit d1" "re_digit d2" "re_digit d3" "re_digit d4"
        using Cons.IH by blast
      then have "x # xs = (x # pre) @ [40, d1, d2, d3, d4, 41] @ post" by simp
      then show ?thesis
        using \<open>re_digit d1\<close> \<open>re_digit d2\<close> \<open>re_digit d3\<close> \<open>re_digit d4\<close> by blast
    qed
  next
    assume "\<exists>pre d1 d2 d3 d4 post. x # xs = pre @ [40, d1, d2, d3, d4, 41] @ post
        \<and> re_digit d1 \<and> re_digit d2 \<and> re_digit d3 \<and> re_digit d4"
    then obtain pre d1 d2 d3 d4 post where eq: "x # xs = pre @ [40, d1, d2, d3, d4, 41] @ post"
      and dg: "re_digit d1" "re_digit d2" "re_digit d3" "re_digit d4"
      by blast
    show "re_search_year (x # xs)"
    proof (cases pre)
      case Nil
      then have "match_year_at (x # xs)" using eq dg by (simp add: match_year_at_iff)
      then show ?thesis by simp
    next
      case (Cons y pre')
      then have "xs = pre' @ [40, d1, d2, d3, d4, 41] @ post" using eq by simp
      then have "re_search_year xs" using Cons.IH dg by blast
      then show ?thesis by simp
    qed
  qed
qed

lemma str_contains_year_iff:
  "str_contains_year c \<longleftrightarrow>
     (\<exists>pre d1 d2 d3 d4 post. c = StrV (pre @ [40, d1, d2, d3, d4, 41] @ post)
        \<and> re_digit d1 \<and> re_digit d2 \<and> re_digit d3 \<and> re_digit d4)"
  by (cases c) (auto simp: str_contains_year_def re_search_year_iff)

lemma re_digit_ascii: "48 \<le> d \<Longrightarrow> d \<le> 57 \<Longrightarrow> re_digit d"
  by (simp add: re_digit_def decimal_digit_blocks_def)

lemma spec_year_at_match: "spec_year_at s \<Longrightarrow> match_year_at s"
  by (cases s rule: spec_year_at.cases) (auto simp: re_digit_ascii)

lemma spec_is_movie_search: "spec_is_movie s \<Longrightarrow> re_search_year s"
  by (induction s) (auto dest: spec_year_at_match)

lemma clean_data_Inr_D:
  assumes "clean_data lib df = Inr out"
  shows "\<exists>dcol tcol.
           getitem (rename_columns df) ''date'' = Inr dcol
         \<and> (\<forall>c\<in>set dcol. parse_date lib dcol c \<noteq> None)
         \<and> getitem (rename_columns df) ''title'' = Inr tcol
         \<and> out = with_derived lib (map (\<lambda>c. the (parse_date lib dcol c)) dcol) tcol (rename_columns df)"
  using assms by (auto simp: clean_data_eq to_datetime_Inr split: sum.splits)

lemma rename_columns_export:
  "rename_columns (export rs) =
     \<lparr>index = [0..<length rs], columns = [(''title'', map fst rs), (''date'', map snd rs)]\<rparr>"
  by (simp add: rename_columns_def column_mapping_def export_def rename_col_def column_names_def)

lemma getitem_export_date: "getitem (rename_columns (export rs)) ''date'' = Inr (map snd rs)"
  by (simp add: rename_columns_export getitem_def)

lemma getitem_export_title: "getitem (rename_columns (export rs)) ''title'' = Inr (map fst rs)"
  by (simp add: rename_columns_export getitem_def)

lemma wf_export: "wf_frame (export rs)"
  by (simp add: wf_frame_def export_def column_names_def nrows_def)

lemma label_count_export:
  "c \<noteq> ''title'' \<Longrightarrow> c \<noteq> ''date'' \<Longrightarrow> label_count c (rename_columns (export rs)) = 0"
  by (simp add: rename_columns_export label_count_def)

lemma label_count_export_date: "label_count ''date'' (rename_columns (export rs)) = 1"
  by (simp add: rename_columns_export label_count_def)

lemma re_digit_arabic: "re_digit 0x660" "re_digit 0x661" "re_digit 0x662" "re_digit 0x669"
  by (simp_all add: re_digit_def decimal_digit_blocks_def)

lemma arabic_title_matches: "str_contains_year (StrV arabic_year_title)"
proof -
  have "arabic_year_title = pystr_of ''Film '' @ [40, 0x662, 0x660, 0x661, 0x669, 41] @ []"
    by (simp add: arabic_year_title_def)
  then show ?thesis using re_digit_arabic by (subst str_contains_year_iff) blast
qed

lemma arabic_title_not_spec: "\<not> spec_is_movie arabic_year_title"
  by (simp add: arabic_year_title_def pystr_of_def)

lemma to_datetime_sample_ints:
  "to_datetime sample_lib (map IntV ts) = Inr (map Some ts)"
  by (simp add: to_datetime_Inr sample_lib_def comp_def)

lemma clean_example_export:
  "clean_data sample_lib example_export
     = Inr (with_derived sample_lib [Some (t0 + 20 * hour_ns), Some (t0 + 10 * hour_ns)]
             [StrV (pystr_of ''Stranger Things: S1E1''), StrV (pystr_of ''Inception (2010)'')]
             (rename_columns example_export))"
  using to_datetime_sample_ints [of "[t0 + 20 * hour_ns, t0 + 10 * hour_ns]"]
  by (simp add: clean_data_eq example_export_def getitem_export_date getitem_export_title)

lemma example_titles:
  "\<not> str_contains_year (StrV (pystr_of ''Stranger Things: S1E1''))"
  "str_contains_year (StrV (pystr_of ''Inception (2010)''))"
  by (simp_all add: str_contains_year_def pystr_of_def re_digit_ascii)



lemma show_basic_stats_no_dates:
  assumes "getitem df ''date'' = Inr []"
  shows "show_basic_stats df = Inl StrftimeNaT"
  using assms
  by (simp add: show_basic_stats_def datetime_values_def series_min_def series_max_def present_def)

lemma show_basic_stats_never_divides_by_zero:
  "show_basic_stats df \<noteq> Inl ZeroDivisionError"
proof
  assume z: "show_basic_stats df = Inl ZeroDivisionError"
  then obtain dcol where g: "getitem df ''date'' = Inr dcol"
    by (auto simp: show_basic_stats_def getitem_def Let_def split: sum.splits list.splits)
  from z g obtain dates where d: "datetime_values ''date'' dcol = Inr dates"
    by (auto simp: show_basic_stats_def datetime_values_def Let_def split: sum.splits option.splits)
  from z g d obtain lo where lo: "series_min dates = Some lo"
    by (auto simp: show_basic_stats_def Let_def split: option.splits)
  then have ne: "present dates \<noteq> []"
    by (auto simp: series_min_def split: list.splits)
  then have "remdups (map (\<lambda>t. t div ns_per_day) (present dates)) \<noteq> []" by simp
  then have "length (remdups (map (\<lambda>t. t div ns_per_day) (present dates))) \<noteq> 0"
    by (simp only: length_0_conv not_False_eq_True)
  then show False using z g d
    by (auto simp: show_basic_stats_def Let_def getitem_def split: option.splits sum.splits list.splits if_splits)
qed

lemma length_remdups_map_pos: "xs \<noteq> [] \<Longrightarrow> Suc 0 \<le> length (remdups (map f xs))"
  by (cases "remdups (map f xs)") auto

lemma show_basic_stats_active_days:
  "show_basic_stats df = Inr s \<Longrightarrow> 1 \<le> active_days s"
  by (auto simp: show_basic_stats_def Let_def length_remdups_map_pos
      split: option.splits sum.splits if_splits)

lemma sorted_dates_Nil [simp]: "sorted_dates [] = []"
  by (simp add: sorted_dates_def present_def)

lemma assign_at_last [simp]: "assign_at (length st) f (st @ [d]) = st @ [f d]"
  by (simp add: assign_at_def)

lemma nth_store_last [simp]: "(st @ [d]) ! length st = d"
  by simp

lemma assign_at_last2 [simp]: "assign_at (Suc (length st)) f (st @ [a, b]) = st @ [a, f b]"
  by (simp add: assign_at_def list_update_append nth_append)

lemma nth_store_last2 [simp]: "(st @ [a, b]) ! Suc (length st) = b"
  by (simp add: nth_append)

lemma fold_rename_store:
  "fold (\<lambda>m s. if fst m \<in> set (column_names (s ! length st))
                then assign_at (length st) (rename_col (fst m) (snd m)) s else s) ms (st @ [d])
   = st @ [fold (\<lambda>m d. if fst m \<in> set (column_names d) then rename_col (fst m) (snd m) d else d) ms d]"
  by (induction ms arbitrary: d) simp_all

lemma clean_data_st_eq:
  "clean_data_st lib st df =
     (case getitem (rename_columns (st ! df)) ''date'' of
        Inl e \<Rightarrow> (st @ [rename_columns (st ! df)], Inl e)
      | Inr dcol \<Rightarrow>
          (case to_datetime lib dcol of
             Inl e \<Rightarrow> (st @ [rename_columns (st ! df)], Inl e)
           | Inr dates \<Rightarrow>
               (case getitem (rename_columns (st ! df)) ''title'' of
                  Inl e \<Rightarrow>
                    (st @ [set_col ''hour'' (dt_field (\<lambda>t. IntV (dt_hour lib t)) dates)
                            (set_col ''day_of_week'' (dt_field (\<lambda>t. StrV (dt_day_name lib t)) dates)
                              (set_col ''month'' (dt_field (\<lambda>t. IntV (dt_month lib t)) dates)
                                (set_col ''year'' (dt_field (\<lambda>t. IntV (dt_year lib t)) dates)
                                  (set_col ''date'' (map ts_cell dates) (rename_columns (st ! df))))))],
                     Inl e)
                | Inr tcol \<Rightarrow>
                    (st @ [with_derived lib dates tcol (rename_columns (st ! df))], Inr (length st)))))"
  by (simp add: clean_data_st_def df_copy_def fold_rename_store rename_columns_def [symmetric]
      Let_def with_derived_def getitem_set_col_other split: sum.splits)

lemma binge_analysis_st_eq:
  "binge_analysis_st argsort st df =
     (case segment argsort (st ! df) of
        Inl e \<Rightarrow> (case sort_values argsort ''date'' (st ! df) of
                    Inl e' \<Rightarrow> (st, Inl e)
                  | Inr s \<Rightarrow> (st @ [s, s], Inl e))
      | Inr seg \<Rightarrow>
          (case sort_values argsort ''date'' (st ! df) of
             Inl e' \<Rightarrow> (st, Inl e')
           | Inr s \<Rightarrow>
               (st @ [s, df_sorted seg],
                case session_stats seg of
                  Inl e \<Rightarrow> Inl e
                | Inr stats \<Rightarrow> Inr (filter (\<lambda>s. 1 < views_count s) stats))))"
  by (simp add: binge_analysis_st_def segment_def df_copy_def Let_def
      split: sum.splits)

lemma take_store_append [simp]: "take (length st) (st @ xs) = st"
  by simp

lemma fst_clean_data_st:
  "\<exists>d. fst (clean_data_st lib st df) = st @ [d]"
  by (simp add: clean_data_st_eq split: sum.splits)

lemma fst_binge_analysis_st:
  "\<exists>ds. fst (binge_analysis_st argsort st df) = st @ ds"
  by (auto simp: binge_analysis_st_eq split: sum.splits)

lemma snd_clean_data_st:
  "(case snd (clean_data_st lib st df) of
      Inl e \<Rightarrow> clean_data lib (st ! df) = Inl e
    | Inr clean_df \<Rightarrow> clean_df = length st
        \<and> clean_data lib (st ! df) = Inr (fst (clean_data_st lib st df) ! clean_df))"
  by (simp add: clean_data_st_eq clean_data_eq split: sum.splits)

lemma snd_binge_analysis_st:
  "snd (binge_analysis_st argsort st df) = binge_analysis argsort (st ! df)"
  by (auto simp: binge_analysis_st_eq binge_analysis_def session_table_def segment_def
      split: sum.splits)

lemma in_column_names_set_col: "c \<in> set (column_names (set_col c vs df))"
  by (simp add: column_names_set_col)

lemma in_column_names_set_col_keep:
  "c \<in> set (column_names df) \<Longrightarrow> c \<in> set (column_names (set_col c' vs df))"
  by (simp add: column_names_set_col)

lemma segment_columns:
  assumes "segment argsort df = Inr seg"
  shows "{''time_diff'', ''new_session'', ''session_id''} \<subseteq> set (column_names (df_sorted seg))"
  using assms
  by (auto simp: segment_def Let_def in_column_names_set_col in_column_names_set_col_keep
      split: sum.splits)

lemma binge_analysis_st_copy:
  assumes "segment argsort (st ! df) = Inr seg"
  shows "fst (binge_analysis_st argsort st df) ! Suc (length st) = df_sorted seg"
  using assms
  by (auto simp: binge_analysis_st_eq segment_def split: sum.splits)

section \<open>The sessions partition the sorted records\<close>

text \<open>
  Claim C1. Whatever the sorting routine does with equal dates, \<^verbatim>\<open>binge_analysis\<close> sorts
  the records by date and cuts the sorted sequence into sessions: the sorted rows are the
  input rows, each once, in ascending order of date with the missing dates last; every
  row has one session identifier; the groups of the identifiers \<open>0, 1, \<dots>\<close> are not empty
  and, one after the other, they are the sorted sequence, so each is a contiguous run;
  the first row has identifier \<open>0\<close>; each later row has the identifier of the row before
  it, or the next identifier when its date exceeds the date of the row before it by more
  than the threshold; and the session table has one row for each of these groups.
\<close>

theorem sessions_partition_sorted_records:
  assumes v: "valid_argsort argsort"
    and wf: "wf_frame df"
    and g: "getitem df ''date'' = Inr dcol"
    and d: "datetime_values ''date'' dcol = Inr items"
  shows "\<exists>seg. segment argsort df = Inr seg
     \<and> length (index (df_sorted seg)) = nrows df
     \<and> length (date_values seg) = nrows df
     \<and> length (session_ids seg) = nrows df
     \<and> mset (zip (index (df_sorted seg)) (date_values seg)) = mset (zip (index df) items)
     \<and> sorted_wrt date_le (date_values seg)
     \<and> concat (map (group_rows (session_ids seg) (index (df_sorted seg)))
               [0..<n_sessions (date_values seg)]) = index (df_sorted seg)
     \<and> (\<forall>k<n_sessions (date_values seg).
            group_rows (session_ids seg) (index (df_sorted seg)) k \<noteq> [])
     \<and> (nrows df \<noteq> 0 \<longrightarrow> session_ids seg ! 0 = 0)
     \<and> (\<forall>i. Suc i < nrows df \<longrightarrow>
            session_ids seg ! Suc i =
              (if gt_threshold (td_sub (date_values seg ! Suc i) (date_values seg ! i))
               then Suc (session_ids seg ! i) else session_ids seg ! i))
     \<and> (\<forall>tbl. session_stats seg = Inr tbl \<longrightarrow>
            map session_id tbl = [0..<n_sessions (date_values seg)])"
proof -
  let ?p = "nargsort argsort items"
  let ?ds = "sorted_dates items"
  let ?seg = "\<lparr>df_sorted = annotate ?ds (take_rows ?p df), date_values = ?ds,
               session_ids = assign_sessions ?ds\<rparr>"
  have seg: "segment argsort df = Inr ?seg"
    by (simp add: segment_eq [OF v] g d)
  have n: "length items = nrows df"
    using getitem_length [OF wf g] datetime_values_length [OF d] by simp
  have lp: "length ?p = nrows df" using nargsort_length [OF v, of items] n by simp
  have mp: "mset ?p = mset [0..<length (zip (index df) items)]"
    using nargsort_mset [OF v, of items] n by (simp add: nrows_def)
  have rng: "\<forall>i\<in>set ?p. i < length (index df) \<and> i < length items"
    using nargsort_set [OF v, of items] n by (simp add: nrows_def)
  have "zip (index (df_sorted ?seg)) (date_values ?seg)
        = zip (map (\<lambda>i. index df ! i) ?p) (map (\<lambda>i. items ! i) ?p)"
    by (simp add: nargsort_keys [OF v])
  also have "\<dots> = map (\<lambda>i. (zip (index df) items) ! i) ?p"
    using rng by (rule zip_map_nth)
  finally have "mset (zip (index (df_sorted ?seg)) (date_values ?seg))
        = mset (map (\<lambda>i. (zip (index df) items) ! i) ?p)" by simp
  then have perm: "mset (zip (index (df_sorted ?seg)) (date_values ?seg)) = mset (zip (index df) items)"
    by (simp only: mset_map_nth_perm [OF mp])
  have keys: "\<forall>k\<in>set (assign_sessions ?ds). k < n_sessions ?ds"
    by (simp add: set_assign_sessions)
  have part: "concat (map (group_rows (assign_sessions ?ds) (map (\<lambda>i. index df ! i) ?p))
               [0..<n_sessions ?ds]) = map (\<lambda>i. index df ! i) ?p"
    by (rule concat_group_rows [OF sorted_assign_sessions _ keys]) (simp add: lp n)
  have ne: "\<forall>k<n_sessions ?ds. group_rows (assign_sessions ?ds) (map (\<lambda>i. index df ! i) ?p) k \<noteq> []"
  proof (intro allI impI)
    fix k assume "k < n_sessions ?ds"
    then have "k \<in> set (assign_sessions ?ds)" by (simp add: set_assign_sessions)
    then show "group_rows (assign_sessions ?ds) (map (\<lambda>i. index df ! i) ?p) k \<noteq> []"
      by (intro group_rows_nonempty) (simp_all add: lp n)
  qed
  have first: "nrows df \<noteq> 0 \<longrightarrow> assign_sessions ?ds ! 0 = 0"
  proof
    assume "nrows df \<noteq> 0"
    then have "length (sorted_dates items) \<noteq> 0" using n by simp
    then have "sorted_dates items \<noteq> []" by (simp only: length_0_conv not_False_eq_True)
    then show "assign_sessions ?ds ! 0 = 0" by (rule assign_sessions_nth_0)
  qed
  have step: "\<forall>i. Suc i < nrows df \<longrightarrow>
            assign_sessions ?ds ! Suc i =
              (if gt_threshold (td_sub (?ds ! Suc i) (?ds ! i))
               then Suc (assign_sessions ?ds ! i) else assign_sessions ?ds ! i)"
    using n by (simp add: assign_sessions_nth_Suc)
  have tbl: "\<forall>tbl. session_stats ?seg = Inr tbl \<longrightarrow> map session_id tbl = [0..<n_sessions ?ds]"
    by (auto simp: session_stats_def session_keys agg_session_def Let_def comp_def map_idI
        split: sum.splits)
  show ?thesis
    apply (rule exI [of _ ?seg])
    apply (intro conjI)
    subgoal by (rule seg)
    subgoal by (simp add: lp)
    subgoal by (simp add: n)
    subgoal by (simp add: n)
    subgoal by (rule perm)
    subgoal by (simp add: sorted_wrt_sorted_dates)
    subgoal using part by simp
    subgoal using ne by simp
    subgoal using first by simp
    subgoal using step by simp
    subgoal using tbl by simp
    done
qed

theorem sessions_partition_sorted_records_witness:
  "valid_argsort insertion_argsort \<and> wf_frame example_history
   \<and> (\<exists>seg. segment insertion_argsort example_history = Inr seg
        \<and> index (df_sorted seg) = [1, 2, 0]
        \<and> session_ids seg = [0, 0, 1]
        \<and> concat (map (group_rows (session_ids seg) (index (df_sorted seg)))
               [0..<n_sessions (date_values seg)]) = index (df_sorted seg))"
proof -
  have wf: "wf_frame example_history"
    by (simp add: example_history_def wf_history)
  have g: "getitem example_history ''date'' =
      Inr [TsV (t0 + 44 * hour_ns), TsV (t0 + 10 * hour_ns), TsV (t0 + 12 * hour_ns)]"
    by (simp add: example_history_def getitem_history_date)
  have d: "datetime_values ''date''
      [TsV (t0 + 44 * hour_ns), TsV (t0 + 10 * hour_ns), TsV (t0 + 12 * hour_ns)] =
      Inr [Some (t0 + 44 * hour_ns), Some (t0 + 10 * hour_ns), Some (t0 + 12 * hour_ns)]"
    by (simp add: datetime_values_Inr as_datetime_def)
  from sessions_partition_sorted_records [OF valid_insertion_argsort wf g d]
  obtain seg where seg: "segment insertion_argsort example_history = Inr seg"
    and part: "concat (map (group_rows (session_ids seg) (index (df_sorted seg)))
               [0..<n_sessions (date_values seg)]) = index (df_sorted seg)"
    by blast
  have "map_sum id (\<lambda>s. (index (df_sorted s), session_ids s)) (segment insertion_argsort example_history)
        = Inr ([1, 2, 0], [0, 0, 1])"
    by code_simp
  then have "index (df_sorted seg) = [1, 2, 0]" "session_ids seg = [0, 0, 1]"
    by (simp_all add: seg)
  then show ?thesis using valid_insertion_argsort wf seg part by blast
qed

section \<open>The threshold is exclusive\<close>

text \<open>
  Claim C2. The threshold is six hours. For two records that follow each other in the
  sorted sequence and both have a date, the later one stays in the session of the earlier
  one exactly when their dates are at most the threshold apart, and it opens the next
  session exactly when they are more than the threshold apart: records exactly six hours
  apart, or with the same date, share a session, and any longer gap separates them.
\<close>

theorem new_session_iff_gap_exceeds_threshold:
  assumes v: "valid_argsort argsort"
    and wf: "wf_frame df"
    and g: "getitem df ''date'' = Inr dcol"
    and d: "datetime_values ''date'' dcol = Inr items"
    and i: "Suc i < nrows df"
  shows "binge_threshold = 6 * (3600 * 1000000000)
     \<and> (\<exists>seg. segment argsort df = Inr seg
          \<and> (\<forall>t t'. date_values seg ! i = Some t \<and> date_values seg ! Suc i = Some t' \<longrightarrow>
                t \<le> t'
              \<and> (session_ids seg ! Suc i = session_ids seg ! i \<longleftrightarrow> t' - t \<le> binge_threshold)
              \<and> (session_ids seg ! Suc i = Suc (session_ids seg ! i) \<longleftrightarrow> binge_threshold < t' - t)))"
proof -
  let ?ds = "sorted_dates items"
  let ?seg = "\<lparr>df_sorted = annotate ?ds (take_rows (nargsort argsort items) df), date_values = ?ds,
               session_ids = assign_sessions ?ds\<rparr>"
  have seg: "segment argsort df = Inr ?seg"
    by (simp add: segment_eq [OF v] g d)
  have n: "length ?ds = nrows df"
    using getitem_length [OF wf g] datetime_values_length [OF d] by simp
  have le: "date_le (?ds ! i) (?ds ! Suc i)"
    using sorted_wrt_sorted_dates [of items] i n by (simp add: sorted_wrt_iff_nth_less)
  have step: "assign_sessions ?ds ! Suc i =
              (if gt_threshold (td_sub (?ds ! Suc i) (?ds ! i))
               then Suc (assign_sessions ?ds ! i) else assign_sessions ?ds ! i)"
    using i n by (simp add: assign_sessions_nth_Suc)
  have "\<forall>t t'. ?ds ! i = Some t \<and> ?ds ! Suc i = Some t' \<longrightarrow>
                t \<le> t'
              \<and> (assign_sessions ?ds ! Suc i = assign_sessions ?ds ! i \<longleftrightarrow> t' - t \<le> binge_threshold)
              \<and> (assign_sessions ?ds ! Suc i = Suc (assign_sessions ?ds ! i) \<longleftrightarrow> binge_threshold < t' - t)"
    using le step by (auto simp: date_le_def gt_threshold_def td_sub_def)
  then show ?thesis using seg by (simp add: binge_threshold_def)
qed

theorem new_session_iff_gap_exceeds_threshold_witness:
  "valid_argsort insertion_argsort \<and> wf_frame (two_views binge_threshold)
   \<and> Suc 0 < nrows (two_views binge_threshold)
   \<and> (\<exists>seg. segment insertion_argsort (two_views binge_threshold) = Inr seg
        \<and> date_values seg = [Some t0, Some (t0 + binge_threshold)]
        \<and> session_ids seg ! Suc 0 = session_ids seg ! 0)
   \<and> (\<exists>seg. segment insertion_argsort (two_views (binge_threshold + 1)) = Inr seg
        \<and> date_values seg = [Some t0, Some (t0 + (binge_threshold + 1))]
        \<and> session_ids seg ! Suc 0 = Suc (session_ids seg ! 0))"
proof -
  have wf: "wf_frame (two_views gap)" for gap
    by (simp add: two_views_def wf_history)
  have n: "Suc 0 < nrows (two_views gap)" for gap
    by (simp add: two_views_def nrows_history)
  have g: "getitem (two_views gap) ''date'' = Inr [TsV t0, TsV (t0 + gap)]" for gap
    by (simp add: two_views_def getitem_history_date)
  have d: "datetime_values ''date'' [TsV t0, TsV (t0 + gap)] = Inr [Some t0, Some (t0 + gap)]" for gap
    by (simp add: datetime_values_Inr as_datetime_def)
  have dv: "map_sum id date_values (segment insertion_argsort (two_views gap))
        = Inr [Some t0, Some (t0 + gap)]" if "0 \<le> gap" for gap
    using that
    by (simp add: segment_eq [OF valid_insertion_argsort] g d sorted_dates_def present_def)
  have a: "\<exists>seg. segment insertion_argsort (two_views binge_threshold) = Inr seg
        \<and> date_values seg = [Some t0, Some (t0 + binge_threshold)]
        \<and> session_ids seg ! Suc 0 = session_ids seg ! 0"
  proof -
    from new_session_iff_gap_exceeds_threshold [OF valid_insertion_argsort wf g d n, of binge_threshold]
    obtain seg where seg: "segment insertion_argsort (two_views binge_threshold) = Inr seg"
      and h: "\<forall>t t'. date_values seg ! 0 = Some t \<and> date_values seg ! Suc 0 = Some t' \<longrightarrow>
                t \<le> t'
              \<and> (session_ids seg ! Suc 0 = session_ids seg ! 0 \<longleftrightarrow> t' - t \<le> binge_threshold)
              \<and> (session_ids seg ! Suc 0 = Suc (session_ids seg ! 0) \<longleftrightarrow> binge_threshold < t' - t)"
      by blast
    have dvs: "date_values seg = [Some t0, Some (t0 + binge_threshold)]"
      using dv [of binge_threshold] seg by (simp add: binge_threshold_def)
    then show ?thesis using seg h by simp
  qed
  have b: "\<exists>seg. segment insertion_argsort (two_views (binge_threshold + 1)) = Inr seg
        \<and> date_values seg = [Some t0, Some (t0 + (binge_threshold + 1))]
        \<and> session_ids seg ! Suc 0 = Suc (session_ids seg ! 0)"
  proof -
    from new_session_iff_gap_exceeds_threshold [OF valid_insertion_argsort wf g d n, of "binge_threshold + 1"]
    obtain seg where seg: "segment insertion_argsort (two_views (binge_threshold + 1)) = Inr seg"
      and h: "\<forall>t t'. date_values seg ! 0 = Some t \<and> date_values seg ! Suc 0 = Some t' \<longrightarrow>
                t \<le> t'
              \<and> (session_ids seg ! Suc 0 = session_ids seg ! 0 \<longleftrightarrow> t' - t \<le> binge_threshold)
              \<and> (session_ids seg ! Suc 0 = Suc (session_ids seg ! 0) \<longleftrightarrow> binge_threshold < t' - t)"
      by blast
    have dvs: "date_values seg = [Some t0, Some (t0 + (binge_threshold + 1))]"
      using dv [of "binge_threshold + 1"] seg by (simp add: binge_threshold_def)
    then show ?thesis using seg h by simp
  qed
  show ?thesis using valid_insertion_argsort wf n a b by blast
qed

section \<open>What \<^verbatim>\<open>binge_analysis\<close> returns\<close>

text \<open>
  Claim C3 says that the operation returns the full session table, and a table of one
  session for a single record. It returns the filtered table: for the table of one
  record it returns no session at all.
\<close>

theorem binge_analysis_single_view_counterexample:
  "binge_analysis insertion_argsort single_view = Inr []"
  by code_simp

text \<open>
  Claim C3 as amended. \<^verbatim>\<open>binge_analysis\<close> builds the full session table and returns the rows
  of it that count more than one view, and nothing else. For a table of one record with a
  date, the full table is the one session \<open>0\<close> that starts and ends at that date and
  lasts zero hours, with one view when the title is present and none when it is missing,
  and the returned table is empty.
\<close>

theorem binge_analysis_returns_only_repeated_sessions:
  assumes v: "valid_argsort argsort"
    and g: "getitem df ''date'' = Inr [TsV t]"
    and gt: "getitem df ''title'' = Inr [c]"
  shows "session_table argsort df =
           Inr [\<lparr>session_id = 0, views_count = (if isna c then 0 else 1),
                 session_start = Some t, session_end = Some t, duration_hours = Some 0\<rparr>]
     \<and> binge_analysis argsort df = Inr []
     \<and> (\<forall>df' out. binge_analysis argsort df' = Inr out \<longrightarrow>
           (\<exists>stats. session_table argsort df' = Inr stats
              \<and> out = filter (\<lambda>s. 1 < views_count s) stats
              \<and> (\<forall>s\<in>set out. 1 < views_count s)))"
proof -
  have d: "datetime_values ''date'' [TsV t] = Inr [Some t]"
    by (simp add: datetime_values_Inr as_datetime_def)
  have sd: "sorted_dates [Some t] = [Some t]"
    by (simp add: sorted_dates_def present_def)
  have ids: "assign_sessions [Some t] = [0]"
    by (simp add: assign_sessions_def cumsum_def diff_def gt_threshold_def)
  have tbl: "session_table argsort df =
           Inr [\<lparr>session_id = 0, views_count = (if isna c then 0 else 1),
                 session_start = Some t, session_end = Some t, duration_hours = Some 0\<rparr>]"
    by (simp add: session_table_def segment_eq [OF v] g d sd ids nargsort_single [OF v]
        session_stats_def getitem_take_rows gt agg_session_def group_rows_def
        series_min_def series_max_def present_def hours_between_def td_sub_def Let_def)
  have ret: "binge_analysis argsort df = Inr []"
    by (simp add: binge_analysis_def tbl)
  have gen: "\<forall>df' out. binge_analysis argsort df' = Inr out \<longrightarrow>
           (\<exists>stats. session_table argsort df' = Inr stats
              \<and> out = filter (\<lambda>s. 1 < views_count s) stats
              \<and> (\<forall>s\<in>set out. 1 < views_count s))"
    by (auto simp: binge_analysis_def split: sum.splits)
  show ?thesis using tbl ret gen by blast
qed

theorem binge_analysis_returns_only_repeated_sessions_witness:
  "valid_argsort insertion_argsort
   \<and> getitem single_view ''date'' = Inr [TsV t0]
   \<and> getitem single_view ''title'' = Inr [StrV (pystr_of ''Inception (2010)'')]
   \<and> session_table insertion_argsort single_view =
           Inr [\<lparr>session_id = 0, views_count = 1,
                 session_start = Some t0, session_end = Some t0, duration_hours = Some 0\<rparr>]
   \<and> binge_analysis insertion_argsort single_view = Inr []"
proof -
  have g: "getitem single_view ''date'' = Inr [TsV t0]"
    by (simp add: single_view_def getitem_history_date)
  have gt: "getitem single_view ''title'' = Inr [StrV (pystr_of ''Inception (2010)'')]"
    by (simp add: single_view_def getitem_history_title)
  show ?thesis
    using binge_analysis_returns_only_repeated_sessions [OF valid_insertion_argsort g gt] g gt
      valid_insertion_argsort
    by (simp add: isna_def)
qed

section \<open>Empty input\<close>

text \<open>
  Claim C5 says that every aggregate completes on an empty input. \<^verbatim>\<open>show_basic_stats\<close> does
  not: the earliest date of an empty column is \<open>NaT\<close>, formatting it raises, and the run
  ends there.
\<close>

theorem empty_input_statistics_counterexample:
  "map_sum id show_basic_stats (clean_data sample_lib empty_export) = Inr (Inl StrftimeNaT)
   \<and> main sample_lib insertion_argsort (\<lambda>df. Inr ()) (Some empty_export) = Inl StrftimeNaT"
proof -
  have c: "clean_data sample_lib empty_export
       = Inr (with_derived sample_lib [] [] (rename_columns (export [])))"
    by (simp add: clean_data_eq empty_export_def getitem_export_date getitem_export_title
        to_datetime_def)
  have "getitem (with_derived sample_lib [] [] (rename_columns (export []))) ''date'' = Inr []"
    by (simp add: getitem_with_derived_date label_count_export_date)
  then have s: "show_basic_stats (with_derived sample_lib [] [] (rename_columns (export [])))
       = Inl StrftimeNaT"
    by (rule show_basic_stats_no_dates)
  show ?thesis by (simp add: main_def c s)
qed

text \<open>
  Claim C5 as amended. A table without rows that has a date column and a title column is
  cleaned to a table without rows, and \<^verbatim>\<open>binge_analysis\<close> turns that into an empty session
  table, both without an error. \<^verbatim>\<open>show_basic_stats\<close> raises on it when it formats the date
  range, before it takes the average, and \<^verbatim>\<open>main\<close> ends with that error. On no table does
  \<^verbatim>\<open>show_basic_stats\<close> divide by zero: where it reaches the average, there is at least one
  active day.
\<close>

theorem empty_input_cleans_but_statistics_raise:
  assumes v: "valid_argsort argsort"
    and wf: "wf_frame df"
    and n: "nrows df = 0"
    and gd: "getitem (rename_columns df) ''date'' = Inr dcol"
    and gt: "getitem (rename_columns df) ''title'' = Inr tcol"
  shows "\<exists>out. clean_data lib df = Inr out
     \<and> nrows out = 0
     \<and> session_table argsort out = Inr []
     \<and> binge_analysis argsort out = Inr []
     \<and> show_basic_stats out = Inl StrftimeNaT
     \<and> main lib argsort charts (Some df) = Inl StrftimeNaT
     \<and> (\<forall>df'. show_basic_stats df' \<noteq> Inl ZeroDivisionError)
     \<and> (\<forall>df' s. show_basic_stats df' = Inr s \<longrightarrow> 1 \<le> active_days s)"
proof -
  let ?out = "with_derived lib [] [] (rename_columns df)"
  have lens: "list_all (\<lambda>p. length (snd p) = nrows df) (columns (rename_columns df))"
    using wf by (simp add: wf_frame_def lengths_rename_columns)
  have d0: "dcol = []" using getitem_length_cols [OF lens gd] n by simp
  have t0: "tcol = []" using getitem_length_cols [OF lens gt] n by simp
  have clean: "clean_data lib df = Inr ?out"
    using gd gt d0 t0 by (simp add: clean_data_eq to_datetime_def)
  have "label_count ''date'' (rename_columns df) \<le> 1"
    using getitem_label_count [OF gd] by simp
  then have od: "getitem ?out ''date'' = Inr []"
    by (simp add: getitem_with_derived_date)
  have ot: "getitem ?out ''title'' = Inr []"
    using gt t0 by (simp add: getitem_with_derived_other derived_labels_def)
  have stats: "show_basic_stats ?out = Inl StrftimeNaT"
    by (rule show_basic_stats_no_dates [OF od])
  have tbl: "session_table argsort ?out = Inr []"
    by (simp add: session_table_def segment_eq [OF v] od datetime_values_def
        session_stats_def getitem_take_rows ot)
  have binge: "binge_analysis argsort ?out = Inr []"
    by (simp add: binge_analysis_def tbl)
  have run: "main lib argsort charts (Some df) = Inl StrftimeNaT"
    by (simp add: main_def clean stats)
  have nz: "\<forall>df'. show_basic_stats df' \<noteq> Inl ZeroDivisionError"
    by (simp add: show_basic_stats_never_divides_by_zero)
  have ad: "\<forall>df' s. show_basic_stats df' = Inr s \<longrightarrow> 1 \<le> active_days s"
    using show_basic_stats_active_days by blast
  have "nrows ?out = 0" using n by simp
  then show ?thesis using clean tbl binge stats run nz ad by blast
qed

theorem empty_input_cleans_but_statistics_raise_witness:
  "valid_argsort insertion_argsort \<and> wf_frame empty_export \<and> nrows empty_export = 0
   \<and> getitem (rename_columns empty_export) ''date'' = Inr []
   \<and> getitem (rename_columns empty_export) ''title'' = Inr []
   \<and> (\<exists>out. clean_data sample_lib empty_export = Inr out
         \<and> nrows out = 0
         \<and> binge_analysis insertion_argsort out = Inr []
         \<and> show_basic_stats out = Inl StrftimeNaT)"
proof -
  have wf: "wf_frame empty_export" by (simp add: empty_export_def wf_export)
  have n: "nrows empty_export = 0" by (simp add: empty_export_def export_def nrows_def)
  have gd: "getitem (rename_columns empty_export) ''date'' = Inr []"
    by (simp add: empty_export_def getitem_export_date)
  have gt: "getitem (rename_columns empty_export) ''title'' = Inr []"
    by (simp add: empty_export_def getitem_export_title)
  from empty_input_cleans_but_statistics_raise [OF valid_insertion_argsort wf n gd gt,
      of sample_lib "\<lambda>df. Inr ()"]
  have "\<exists>out. clean_data sample_lib empty_export = Inr out
         \<and> nrows out = 0
         \<and> binge_analysis insertion_argsort out = Inr []
         \<and> show_basic_stats out = Inl StrftimeNaT"
    by blast
  then show ?thesis using valid_insertion_argsort wf n gd gt by blast
qed

section \<open>Movies and shows\<close>

text \<open>
  Claim C6 says that a title is a movie exactly when it contains four ASCII digits between
  parentheses. The pattern of the program is \<^verbatim>\<open>\d{4}\<close> between parentheses, and \<^verbatim>\<open>\d\<close>
  matches the decimal digits of every script: a title with a year in Arabic-Indic digits
  has no ASCII digit at all and is classified as a movie.
\<close>

theorem is_movie_arabic_year_counterexample:
  "\<not> spec_is_movie arabic_year_title
   \<and> map_sum id (\<lambda>out. (getitem out ''title'', getitem out ''is_movie''))
       (clean_data sample_lib arabic_export)
     = Inr (Inr [StrV arabic_year_title], Inr [BoolV True])"
proof -
  have "to_datetime sample_lib [IntV t0] = Inr [Some t0]"
    by (simp add: to_datetime_def sample_lib_def)
  then have "clean_data sample_lib arabic_export
      = Inr (with_derived sample_lib [Some t0] [StrV arabic_year_title]
               (rename_columns (export [(StrV arabic_year_title, IntV t0)])))"
    by (simp add: clean_data_eq arabic_export_def getitem_export_date getitem_export_title)
  then show ?thesis
    using arabic_title_matches arabic_title_not_spec
    by (simp add: getitem_with_derived_other derived_labels_def getitem_export_title
        getitem_with_derived_is_movie label_count_export)
qed

text \<open>
  Claim C6 as amended. In the table \<^verbatim>\<open>clean_data\<close> returns, the flag \<^verbatim>\<open>is_movie\<close> of a row is
  true exactly when its title is a text that contains an opening parenthesis, four
  decimal digits in the sense of \<^verbatim>\<open>\d\<close> and a closing parenthesis; the flag \<^verbatim>\<open>is_tv_show\<close>
  is its negation, so exactly one of the two holds in every row. The ASCII digits are
  decimal digits, so every title that matches in the sense of the specification is a
  movie.
\<close>

theorem is_movie_iff_title_matches_year_pattern:
  assumes wf: "wf_frame df" and ok: "clean_data lib df = Inr out"
  shows "\<exists>tcol. getitem out ''title'' = Inr tcol
     \<and> length tcol = nrows out
     \<and> getitem out ''is_movie'' = Inr (map (\<lambda>c. BoolV (str_contains_year c)) tcol)
     \<and> getitem out ''is_tv_show'' = Inr (map (\<lambda>c. BoolV (\<not> str_contains_year c)) tcol)
     \<and> (\<forall>c. str_contains_year c \<longleftrightarrow>
           (\<exists>pre d1 d2 d3 d4 post. c = StrV (pre @ [40, d1, d2, d3, d4, 41] @ post)
              \<and> re_digit d1 \<and> re_digit d2 \<and> re_digit d3 \<and> re_digit d4))
     \<and> (\<forall>d. 48 \<le> d \<and> d \<le> 57 \<longrightarrow> re_digit d)
     \<and> (\<forall>s. spec_is_movie s \<longrightarrow> str_contains_year (StrV s))"
proof -
  from clean_data_Inr_D [OF ok] obtain dcol tcol where
    gd: "getitem (rename_columns df) ''date'' = Inr dcol"
    and gt: "getitem (rename_columns df) ''title'' = Inr tcol"
    and out: "out = with_derived lib (map (\<lambda>c. the (parse_date lib dcol c)) dcol) tcol (rename_columns df)"
    by blast
  have dist: "distinct (column_names df)" and lens: "list_all (\<lambda>p. length (snd p) = nrows df) (columns df)"
    using wf by (simp_all add: wf_frame_def)
  have lens': "list_all (\<lambda>p. length (snd p) = nrows df) (columns (rename_columns df))"
    using lens by (simp add: lengths_rename_columns)
  have lt: "length tcol = nrows out"
    using getitem_length_cols [OF lens' gt] out by simp
  have cm: "label_count ''is_movie'' (rename_columns df) \<le> 1"
    using label_count_distinct [OF dist, of "''is_movie''"]
    by (simp add: label_count_rename_columns)
  have ct: "label_count ''is_tv_show'' (rename_columns df) \<le> 1"
    using label_count_distinct [OF dist, of "''is_tv_show''"]
    by (simp add: label_count_rename_columns)
  have a: "getitem out ''title'' = Inr tcol"
    by (simp add: out getitem_with_derived_other derived_labels_def gt)
  have b: "getitem out ''is_movie'' = Inr (map (\<lambda>c. BoolV (str_contains_year c)) tcol)"
    by (simp add: out getitem_with_derived_is_movie [OF cm] comp_def)
  have c: "getitem out ''is_tv_show'' = Inr (map (\<lambda>c. BoolV (\<not> str_contains_year c)) tcol)"
    by (simp add: out getitem_with_derived_is_tv_show [OF ct] comp_def)
  have d: "\<forall>s. spec_is_movie s \<longrightarrow> str_contains_year (StrV s)"
    by (simp add: str_contains_year_def spec_is_movie_search)
  have e: "\<forall>c. str_contains_year c \<longleftrightarrow>
           (\<exists>pre d1 d2 d3 d4 post. c = StrV (pre @ [40, d1, d2, d3, d4, 41] @ post)
              \<and> re_digit d1 \<and> re_digit d2 \<and> re_digit d3 \<and> re_digit d4)"
    by (intro allI) (rule str_contains_year_iff)
  have f: "\<forall>d. 48 \<le> d \<and> d \<le> 57 \<longrightarrow> re_digit d"
    by (simp add: re_digit_ascii)
  show ?thesis
    by (rule exI [of _ tcol]) (intro conjI a lt b c e f d)
qed

theorem is_movie_iff_title_matches_year_pattern_witness:
  "wf_frame example_export
   \<and> (\<exists>out. clean_data sample_lib example_export = Inr out
         \<and> getitem out ''is_movie'' = Inr [BoolV False, BoolV True]
         \<and> getitem out ''is_tv_show'' = Inr [BoolV True, BoolV False])"
proof -
  have wf: "wf_frame example_export" by (simp add: example_export_def wf_export)
  let ?out = "with_derived sample_lib [Some (t0 + 20 * hour_ns), Some (t0 + 10 * hour_ns)]
             [StrV (pystr_of ''Stranger Things: S1E1''), StrV (pystr_of ''Inception (2010)'')]
             (rename_columns example_export)"
  from is_movie_iff_title_matches_year_pattern [OF wf clean_example_export]
  obtain tcol where t: "getitem ?out ''title'' = Inr tcol"
    and m: "getitem ?out ''is_movie'' = Inr (map (\<lambda>c. BoolV (str_contains_year c)) tcol)"
    and tv: "getitem ?out ''is_tv_show'' = Inr (map (\<lambda>c. BoolV (\<not> str_contains_year c)) tcol)"
    by blast
  have "getitem ?out ''title''
      = Inr [StrV (pystr_of ''Stranger Things: S1E1''), StrV (pystr_of ''Inception (2010)'')]"
    by (simp add: getitem_with_derived_other derived_labels_def example_export_def
        getitem_export_title)
  then have "tcol = [StrV (pystr_of ''Stranger Things: S1E1''), StrV (pystr_of ''Inception (2010)'')]"
    using t by simp
  then show ?thesis using wf clean_example_export m tv example_titles by simp
qed

section \<open>The result does not depend on the order of equal dates\<close>

text \<open>
  Claim C7. The model is a function, so two runs with the same sorting routine give the
  same result. The theorem says more: two runs give the same result even when their
  sorting routines order equal dates differently. The returned table, the full session
  table, the sorted dates, the session identifiers and the session of every row label
  are the same for any two routines that sort; the threshold is the constant of the
  program. When the table has no usable date column, both runs raise the same error.
\<close>

theorem segmentation_deterministic:
  assumes v1: "valid_argsort a1" and v2: "valid_argsort a2"
  shows "binge_analysis a1 df = binge_analysis a2 df
     \<and> session_table a1 df = session_table a2 df
     \<and> (case (segment a1 df, segment a2 df) of
          (Inr s1, Inr s2) \<Rightarrow>
             date_values s1 = date_values s2
           \<and> session_ids s1 = session_ids s2
           \<and> mset (zip (index (df_sorted s1)) (session_ids s1))
               = mset (zip (index (df_sorted s2)) (session_ids s2))
        | (Inl e1, Inl e2) \<Rightarrow> e1 = e2
        | _ \<Rightarrow> False)"
proof -
  have tbl: "session_table a1 df = session_table a2 df"
  proof (cases "getitem df ''date''")
    case (Inl e)
    then show ?thesis by (simp add: session_table_def segment_eq v1 v2)
  next
    case (Inr dcol)
    note g = this
    show ?thesis
    proof (cases "datetime_values ''date'' dcol")
      case (Inl e)
      then show ?thesis using g by (simp add: session_table_def segment_eq v1 v2)
    next
      case (Inr items)
      note d = this
      show ?thesis
      proof (cases "getitem df ''title''")
        case (Inl e)
        then show ?thesis using g d
          by (simp add: session_table_def segment_eq v1 v2 session_stats_def getitem_take_rows)
      next
        case (Inr tcol)
        have "agg_session (assign_sessions (sorted_dates items)) (map (\<lambda>i. tcol ! i) (nargsort a1 items))
                (sorted_dates items) k
              = agg_session (assign_sessions (sorted_dates items)) (map (\<lambda>i. tcol ! i) (nargsort a2 items))
                (sorted_dates items) k" for k
          by (rule agg_session_independent) (rule mset_zip_sessions_independent [OF v1 v2])
        then show ?thesis using g d Inr
          by (simp add: session_table_def segment_eq v1 v2 session_stats_def getitem_take_rows)
      qed
    qed
  qed
  have seg: "(case (segment a1 df, segment a2 df) of
          (Inr s1, Inr s2) \<Rightarrow>
             date_values s1 = date_values s2
           \<and> session_ids s1 = session_ids s2
           \<and> mset (zip (index (df_sorted s1)) (session_ids s1))
               = mset (zip (index (df_sorted s2)) (session_ids s2))
        | (Inl e1, Inl e2) \<Rightarrow> e1 = e2
        | _ \<Rightarrow> False)"
  proof (cases "getitem df ''date''")
    case (Inl e)
    then show ?thesis by (simp add: segment_eq v1 v2)
  next
    case (Inr dcol)
    note g = this
    show ?thesis
    proof (cases "datetime_values ''date'' dcol")
      case (Inl e)
      then show ?thesis using g by (simp add: segment_eq v1 v2)
    next
      case (Inr items)
      have "mset (zip (map (\<lambda>i. index df ! i) (nargsort a1 items)) (assign_sessions (sorted_dates items)))
          = mset (zip (map (\<lambda>i. index df ! i) (nargsort a2 items)) (assign_sessions (sorted_dates items)))"
        by (simp only: mset_zip_swap [of "map _ _" "assign_sessions _"]
            mset_zip_sessions_independent [OF v1 v2])
      then show ?thesis using g Inr by (simp add: segment_eq v1 v2)
    qed
  qed
  show ?thesis using tbl seg by (simp add: binge_analysis_def)
qed

theorem segmentation_deterministic_witness:
  "valid_argsort insertion_argsort \<and> valid_argsort descending_ties_argsort
   \<and> map_sum id (\<lambda>s. index (df_sorted s)) (segment insertion_argsort tied_history) = Inr [0, 1, 2]
   \<and> map_sum id (\<lambda>s. index (df_sorted s)) (segment descending_ties_argsort tied_history) = Inr [1, 0, 2]
   \<and> session_table insertion_argsort tied_history = session_table descending_ties_argsort tied_history
   \<and> binge_analysis insertion_argsort tied_history = binge_analysis descending_ties_argsort tied_history"
proof -
  have a: "map_sum id (\<lambda>s. index (df_sorted s)) (segment insertion_argsort tied_history) = Inr [0, 1, 2]"
    by code_simp
  have b: "map_sum id (\<lambda>s. index (df_sorted s)) (segment descending_ties_argsort tied_history) = Inr [1, 0, 2]"
    by code_simp
  show ?thesis
    using segmentation_deterministic [OF valid_insertion_argsort valid_descending_ties_argsort, of tied_history]
      valid_insertion_argsort valid_descending_ties_argsort a b
    by simp
qed

section \<open>Dates that cannot be parsed\<close>




section \<open>Cleaning keeps the rows\<close>

text \<open>
  Claim C9. When \<^verbatim>\<open>clean_data\<close> returns, the table it returns has as many rows as the input
  and the same row labels in the same order; every column has one cell per row; renaming
  changes labels only; every column that is not assigned keeps its cells, the titles
  among them; and the date of each row is the parsed date of the same row of the input.
  The rows are not sorted.
\<close>

theorem clean_data_keeps_rows_in_order:
  assumes wf: "wf_frame df" and ok: "clean_data lib df = Inr out"
  shows "nrows out = nrows df
     \<and> index out = index df
     \<and> list_all (\<lambda>p. length (snd p) = nrows df) (columns out)
     \<and> map snd (columns (rename_columns df)) = map snd (columns df)
     \<and> (\<forall>c. c \<notin> derived_labels \<longrightarrow> getitem out c = getitem (rename_columns df) c)
     \<and> (\<exists>dcol tcol. getitem (rename_columns df) ''date'' = Inr dcol
           \<and> getitem (rename_columns df) ''title'' = Inr tcol
           \<and> length dcol = nrows df \<and> length tcol = nrows df
           \<and> getitem out ''title'' = Inr tcol
           \<and> getitem out ''date'' = Inr (map (\<lambda>c. ts_cell (the (parse_date lib dcol c))) dcol))"
proof -
  from clean_data_Inr_D [OF ok] obtain dcol tcol where
    gd: "getitem (rename_columns df) ''date'' = Inr dcol"
    and gt: "getitem (rename_columns df) ''title'' = Inr tcol"
    and out: "out = with_derived lib (map (\<lambda>c. the (parse_date lib dcol c)) dcol) tcol (rename_columns df)"
    by blast
  have lens: "list_all (\<lambda>p. length (snd p) = nrows df) (columns (rename_columns df))"
    using wf by (simp add: wf_frame_def lengths_rename_columns)
  have ld: "length dcol = nrows df" by (rule getitem_length_cols [OF lens gd])
  have lt: "length tcol = nrows df" by (rule getitem_length_cols [OF lens gt])
  have a: "nrows out = nrows df" by (simp add: out)
  have b: "index out = index df" by (simp add: out)
  have c: "list_all (\<lambda>p. length (snd p) = nrows df) (columns out)"
    unfolding out by (rule lengths_with_derived [OF lens]) (simp_all add: ld lt)
  have d: "\<forall>c. c \<notin> derived_labels \<longrightarrow> getitem out c = getitem (rename_columns df) c"
    by (simp add: out getitem_with_derived_other)
  have e: "getitem out ''title'' = Inr tcol"
    by (simp add: out getitem_with_derived_other derived_labels_def gt)
  have "label_count ''date'' (rename_columns df) \<le> 1"
    using getitem_label_count [OF gd] by simp
  then have f: "getitem out ''date'' = Inr (map (\<lambda>c. ts_cell (the (parse_date lib dcol c))) dcol)"
    by (simp add: out getitem_with_derived_date comp_def)
  have "\<exists>dcol tcol. getitem (rename_columns df) ''date'' = Inr dcol
           \<and> getitem (rename_columns df) ''title'' = Inr tcol
           \<and> length dcol = nrows df \<and> length tcol = nrows df
           \<and> getitem out ''title'' = Inr tcol
           \<and> getitem out ''date'' = Inr (map (\<lambda>c. ts_cell (the (parse_date lib dcol c))) dcol)"
    using gd gt ld lt e f by blast
  then show ?thesis using a b c d by simp
qed

theorem clean_data_keeps_rows_in_order_witness:
  "wf_frame example_export
   \<and> (\<exists>out. clean_data sample_lib example_export = Inr out
        \<and> nrows out = 2 \<and> index out = [0, 1]
        \<and> getitem out ''title''
            = Inr [StrV (pystr_of ''Stranger Things: S1E1''), StrV (pystr_of ''Inception (2010)'')])"
proof -
  have wf: "wf_frame example_export" by (simp add: example_export_def wf_export)
  let ?out = "with_derived sample_lib [Some (t0 + 20 * hour_ns), Some (t0 + 10 * hour_ns)]
             [StrV (pystr_of ''Stranger Things: S1E1''), StrV (pystr_of ''Inception (2010)'')]
             (rename_columns example_export)"
  from clean_data_keeps_rows_in_order [OF wf clean_example_export]
  have n: "nrows ?out = nrows example_export" and i: "index ?out = index example_export"
    and o: "\<forall>c. c \<notin> derived_labels \<longrightarrow> getitem ?out c = getitem (rename_columns example_export) c"
    by blast+
  have "''title'' \<notin> derived_labels" by (simp add: derived_labels_def)
  then have "getitem ?out ''title'' = getitem (rename_columns example_export) ''title''"
    using o by blast
  then have t: "getitem ?out ''title''
            = Inr [StrV (pystr_of ''Stranger Things: S1E1''), StrV (pystr_of ''Inception (2010)'')]"
    by (simp add: example_export_def getitem_export_title)
  have "nrows example_export = 2" "index example_export = [0, 1]"
    by (simp_all add: example_export_def export_def nrows_def upt_rec)
  then show ?thesis using wf clean_example_export n i t by simp
qed

section \<open>The operations change no table they are given\<close>

text \<open>
  Claim C10. Run on a store, \<^verbatim>\<open>clean_data\<close> and \<^verbatim>\<open>binge_analysis\<close> leave every table that was
  there before as it was, the table they are given among them; what they add comes after.
  \<^verbatim>\<open>clean_data\<close> returns a table that is not the one it was given, and that table, or the
  error, is the one of the function \<open>clean_data\<close> above. \<^verbatim>\<open>binge_analysis\<close> returns what the
  function \<open>binge_analysis\<close> above returns; the sorted and annotated copy is the second
  table it adds, and the columns \<^verbatim>\<open>time_diff\<close>, \<^verbatim>\<open>new_session\<close> and \<^verbatim>\<open>session_id\<close> are set on
  that copy.
\<close>

theorem analysis_leaves_input_tables_unchanged:
  assumes a: "df < length st"
  shows "take (length st) (fst (clean_data_st lib st df)) = st
     \<and> fst (clean_data_st lib st df) ! df = st ! df
     \<and> (case snd (clean_data_st lib st df) of
           Inl e \<Rightarrow> clean_data lib (st ! df) = Inl e
         | Inr clean_df \<Rightarrow> clean_df = length st \<and> clean_df \<noteq> df
             \<and> clean_data lib (st ! df) = Inr (fst (clean_data_st lib st df) ! clean_df))
     \<and> take (length st) (fst (binge_analysis_st argsort st df)) = st
     \<and> fst (binge_analysis_st argsort st df) ! df = st ! df
     \<and> snd (binge_analysis_st argsort st df) = binge_analysis argsort (st ! df)
     \<and> (\<forall>seg. segment argsort (st ! df) = Inr seg \<longrightarrow>
            fst (binge_analysis_st argsort st df) ! Suc (length st) = df_sorted seg
          \<and> {''time_diff'', ''new_session'', ''session_id''} \<subseteq> set (column_names (df_sorted seg)))"
proof -
  obtain d where c: "fst (clean_data_st lib st df) = st @ [d]"
    using fst_clean_data_st by blast
  obtain ds where b: "fst (binge_analysis_st argsort st df) = st @ ds"
    using fst_binge_analysis_st by blast
  have c1: "take (length st) (fst (clean_data_st lib st df)) = st" by (simp add: c)
  have c2: "fst (clean_data_st lib st df) ! df = st ! df" using a by (simp add: c nth_append)
  have c3: "(case snd (clean_data_st lib st df) of
           Inl e \<Rightarrow> clean_data lib (st ! df) = Inl e
         | Inr clean_df \<Rightarrow> clean_df = length st \<and> clean_df \<noteq> df
             \<and> clean_data lib (st ! df) = Inr (fst (clean_data_st lib st df) ! clean_df))"
    using snd_clean_data_st [of lib st df] a by (auto split: sum.splits)
  have b1: "take (length st) (fst (binge_analysis_st argsort st df)) = st" by (simp add: b)
  have b2: "fst (binge_analysis_st argsort st df) ! df = st ! df" using a by (simp add: b nth_append)
  have b3: "snd (binge_analysis_st argsort st df) = binge_analysis argsort (st ! df)"
    by (rule snd_binge_analysis_st)
  have b4: "\<forall>seg. segment argsort (st ! df) = Inr seg \<longrightarrow>
            fst (binge_analysis_st argsort st df) ! Suc (length st) = df_sorted seg
          \<and> {''time_diff'', ''new_session'', ''session_id''} \<subseteq> set (column_names (df_sorted seg))"
    using binge_analysis_st_copy segment_columns by blast
  show ?thesis by (intro conjI c1 c2 c3 b1 b2 b3 b4)
qed

theorem analysis_leaves_input_tables_unchanged_witness:
  "(0::nat) < length [example_export, example_history]
   \<and> fst (clean_data_st sample_lib [example_export, example_history] 0) ! 0 = example_export
   \<and> snd (clean_data_st sample_lib [example_export, example_history] 0) = Inr 2
   \<and> fst (binge_analysis_st insertion_argsort [example_export, example_history] 1) ! 1 = example_history
   \<and> snd (binge_analysis_st insertion_argsort [example_export, example_history] 1)
       = binge_analysis insertion_argsort example_history"
proof -
  let ?st = "[example_export, example_history]"
  have a0: "(0::nat) < length ?st" and a1: "(1::nat) < length ?st" by simp_all
  note c = analysis_leaves_input_tables_unchanged [OF a0, of sample_lib insertion_argsort]
  note b = analysis_leaves_input_tables_unchanged [OF a1, of sample_lib insertion_argsort]
  have c2: "fst (clean_data_st sample_lib ?st 0) ! 0 = example_export"
    using c by simp
  have "clean_data sample_lib (?st ! 0) \<noteq> Inl e" for e
    by (simp add: clean_example_export)
  then have c3: "snd (clean_data_st sample_lib ?st 0) = Inr 2"
    using c by (auto split: sum.splits)
  have b2: "fst (binge_analysis_st insertion_argsort ?st 1) ! 1 = example_history"
    using b by simp
  have b3: "snd (binge_analysis_st insertion_argsort ?st 1)
       = binge_analysis insertion_argsort example_history"
    using b by simp
  show ?thesis using a0 c2 c3 b2 b3 by simp
qed


end
